theory Spec2Isabelle
  imports Main "HOL-Library.Word"
begin

unbundle bit_operations_syntax

section \<open>Failures\<close>

text \<open>
  Every way in which the Go code stops without a value is a constructor here:
  the \<open>err\<close> result of \<open>crypto/rand\<close> and the run-time panics of \<open>math/big\<close>,
  \<open>crypto/rand\<close>, \<open>crypto/aes\<close> and of the language itself.
\<close>

datatype error =
    ReaderError      \<comment> \<open>the entropy source returned \<open>err \<noteq> nil\<close>\<close>
  | Panic_Reader     \<comment> \<open>\<open>panic(err)\<close> after a failed read\<close>
  | Panic_Bound      \<comment> \<open>\<open>rand.Int\<close> called with \<open>max \<le> 0\<close>\<close>
  | Panic_DivZero    \<comment> \<open>\<open>Mod\<close>, \<open>Div\<close> or \<open>ModInverse\<close> by zero\<close>
  | Panic_Nil        \<comment> \<open>a method called on a nil \<open>*big.Int\<close>\<close>
  | Panic_KeySize    \<comment> \<open>\<open>aes.NewCipher\<close> refused the key length\<close>
  | Panic_Index      \<comment> \<open>index out of range\<close>
  | Panic_MakeLen    \<comment> \<open>\<open>make\<close> with a negative length\<close>

fun bindE :: "error + 'a \<Rightarrow> ('a \<Rightarrow> error + 'b) \<Rightarrow> error + 'b" where
  "bindE (Inl e) f = Inl e"
| "bindE (Inr x) f = f x"

section \<open>The operations of \<open>math/big\<close> that the code calls\<close>

text \<open>
  \<open>big.Int\<close> values are unbounded, so they are \<open>int\<close>. \<open>Mod\<close> and \<open>Div\<close> are
  Euclidean: the remainder lies in \<open>[0, |y|)\<close> whatever the signs, and both panic on
  a zero divisor.
\<close>

definition big_Mod :: "int \<Rightarrow> int \<Rightarrow> error + int" where
  "big_Mod x y = (if y = 0 then Inl Panic_DivZero else Inr (x mod \<bar>y\<bar>))"

definition big_Div :: "int \<Rightarrow> int \<Rightarrow> error + int" where
  "big_Div x y = (if y = 0 then Inl Panic_DivZero else Inr (sgn y * (x div \<bar>y\<bar>)))"

text \<open>
  \<open>ModInverse g n\<close> is the inverse of \<open>g\<close> in the ring of residues modulo \<open>n\<close>, in
  \<open>[0, |n|)\<close>; \<open>None\<close> is the nil it returns when \<open>g\<close> and \<open>n\<close> are not coprime.
  It panics for \<open>n = 0\<close>.
\<close>

definition big_ModInverse :: "int \<Rightarrow> int \<Rightarrow> error + int option" where
  "big_ModInverse g n =
     (if n = 0 then Inl Panic_DivZero
      else let m = \<bar>n\<bar>; a = g mod m
           in Inr (if gcd a m = 1 then Some (fst (bezw (nat a) (nat m)) mod m) else None))"

text \<open>
  \<open>Exp x y m\<close>: with a zero (or nil) modulus the plain power, and 1 for \<open>y \<le> 0\<close>;
  otherwise the power modulo \<open>|m|\<close>, a negative exponent going through the inverse of
  \<open>x\<close> and yielding nil when there is none.
\<close>

definition big_Exp :: "int \<Rightarrow> int \<Rightarrow> int \<Rightarrow> int option" where
  "big_Exp x y m =
     (if m = 0 then Some (if y \<le> 0 then 1 else x ^ nat y)
      else if y < 0 then
        (case big_ModInverse x m of
           Inr (Some xi) \<Rightarrow> Some (xi ^ nat (- y) mod \<bar>m\<bar>)
         | _ \<Rightarrow> None)
      else Some (x ^ nat y mod \<bar>m\<bar>))"

section \<open>The entropy source\<close>

text \<open>
  \<open>crypto/rand.Reader\<close> is an input of the model: a tape whose cell \<open>i\<close> holds the
  \<open>i\<close>-th raw draw, or \<open>None\<close> when the read fails there. The position on the tape is
  the state that every drawing function threads. \<open>rand.Int\<close> panics on a bound
  \<open>max \<le> 0\<close> before it reads, and returns a value of \<open>[0, max)\<close>; reducing the raw
  draw modulo \<open>max\<close> reaches each value of that range and no other.
\<close>

type_synonym reader = "nat \<Rightarrow> nat option"

definition rand_Int :: "int \<Rightarrow> reader \<Rightarrow> nat \<Rightarrow> error + (int \<times> nat)" where
  "rand_Int mx rd pos =
     (if mx \<le> 0 then Inl Panic_Bound
      else case rd pos of
             None \<Rightarrow> Inl ReaderError
           | Some e \<Rightarrow> Inr (int e mod mx, Suc pos))"

section \<open>The block cipher of \<open>crypto/aes\<close>\<close>

text \<open>
  \<open>F\<close> encrypts one block with \<open>aes.NewCipher(K)\<close>. The cipher is the standard
  library's, so it is modelled from its standard (FIPS 197): bytes are \<open>8 word\<close>,
  the state is the 16 bytes of the block in input order (column by column), and the
  cipher object is the list of round keys that \<open>NewCipher\<close> expands from the key.
\<close>

type_synonym byte = "8 word"

definition sbox :: "byte list" where
  "sbox =
    [0x63, 0x7c, 0x77, 0x7b, 0xf2, 0x6b, 0x6f, 0xc5,
     0x30, 0x01, 0x67, 0x2b, 0xfe, 0xd7, 0xab, 0x76,
     0xca, 0x82, 0xc9, 0x7d, 0xfa, 0x59, 0x47, 0xf0,
     0xad, 0xd4, 0xa2, 0xaf, 0x9c, 0xa4, 0x72, 0xc0,
     0xb7, 0xfd, 0x93, 0x26, 0x36, 0x3f, 0xf7, 0xcc,
     0x34, 0xa5, 0xe5, 0xf1, 0x71, 0xd8, 0x31, 0x15,
     0x04, 0xc7, 0x23, 0xc3, 0x18, 0x96, 0x05, 0x9a,
     0x07, 0x12, 0x80, 0xe2, 0xeb, 0x27, 0xb2, 0x75,
     0x09, 0x83, 0x2c, 0x1a, 0x1b, 0x6e, 0x5a, 0xa0,
     0x52, 0x3b, 0xd6, 0xb3, 0x29, 0xe3, 0x2f, 0x84,
     0x53, 0xd1, 0x00, 0xed, 0x20, 0xfc, 0xb1, 0x5b,
     0x6a, 0xcb, 0xbe, 0x39, 0x4a, 0x4c, 0x58, 0xcf,
     0xd0, 0xef, 0xaa, 0xfb, 0x43, 0x4d, 0x33, 0x85,
     0x45, 0xf9, 0x02, 0x7f, 0x50, 0x3c, 0x9f, 0xa8,
     0x51, 0xa3, 0x40, 0x8f, 0x92, 0x9d, 0x38, 0xf5,
     0xbc, 0xb6, 0xda, 0x21, 0x10, 0xff, 0xf3, 0xd2,
     0xcd, 0x0c, 0x13, 0xec, 0x5f, 0x97, 0x44, 0x17,
     0xc4, 0xa7, 0x7e, 0x3d, 0x64, 0x5d, 0x19, 0x73,
     0x60, 0x81, 0x4f, 0xdc, 0x22, 0x2a, 0x90, 0x88,
     0x46, 0xee, 0xb8, 0x14, 0xde, 0x5e, 0x0b, 0xdb,
     0xe0, 0x32, 0x3a, 0x0a, 0x49, 0x06, 0x24, 0x5c,
     0xc2, 0xd3, 0xac, 0x62, 0x91, 0x95, 0xe4, 0x79,
     0xe7, 0xc8, 0x37, 0x6d, 0x8d, 0xd5, 0x4e, 0xa9,
     0x6c, 0x56, 0xf4, 0xea, 0x65, 0x7a, 0xae, 0x08,
     0xba, 0x78, 0x25, 0x2e, 0x1c, 0xa6, 0xb4, 0xc6,
     0xe8, 0xdd, 0x74, 0x1f, 0x4b, 0xbd, 0x8b, 0x8a,
     0x70, 0x3e, 0xb5, 0x66, 0x48, 0x03, 0xf6, 0x0e,
     0x61, 0x35, 0x57, 0xb9, 0x86, 0xc1, 0x1d, 0x9e,
     0xe1, 0xf8, 0x98, 0x11, 0x69, 0xd9, 0x8e, 0x94,
     0x9b, 0x1e, 0x87, 0xe9, 0xce, 0x55, 0x28, 0xdf,
     0x8c, 0xa1, 0x89, 0x0d, 0xbf, 0xe6, 0x42, 0x68,
     0x41, 0x99, 0x2d, 0x0f, 0xb0, 0x54, 0xbb, 0x16]"

definition SubByte :: "byte \<Rightarrow> byte" where
  "SubByte b = sbox ! unat b"

definition xtime :: "byte \<Rightarrow> byte" where
  "xtime b = (if bit b 7 then push_bit 1 b XOR 0x1b else push_bit 1 b)"

definition SubWord :: "byte list \<Rightarrow> byte list" where
  "SubWord w = map SubByte w"

definition RotWord :: "byte list \<Rightarrow> byte list" where
  "RotWord w = drop 1 w @ take 1 w"

definition xor_block :: "byte list \<Rightarrow> byte list \<Rightarrow> byte list" where
  "xor_block a b = map (\<lambda>(x, y). x XOR y) (zip a b)"

definition KeyExpansion_temp :: "nat \<Rightarrow> nat \<Rightarrow> byte \<Rightarrow> byte list \<Rightarrow> byte list" where
  "KeyExpansion_temp nk i rcon temp =
     (if i mod nk = 0 then xor_block (SubWord (RotWord temp)) [rcon, 0, 0, 0]
      else if 6 < nk \<and> i mod nk = 4 then SubWord temp
      else temp)"

fun KeyExpansion_loop :: "nat \<Rightarrow> nat \<Rightarrow> nat \<Rightarrow> byte \<Rightarrow> byte list list \<Rightarrow> byte list list" where
  "KeyExpansion_loop 0 nk i rcon w = w"
| "KeyExpansion_loop (Suc n) nk i rcon w =
     KeyExpansion_loop n nk (Suc i) (if i mod nk = 0 then xtime rcon else rcon)
       (w @ [xor_block (w ! (i - nk)) (KeyExpansion_temp nk i rcon (w ! (i - 1)))])"

fun words_of :: "byte list \<Rightarrow> byte list list" where
  "words_of (a # b # c # d # rest) = [a, b, c, d] # words_of rest"
| "words_of _ = []"

fun round_keys :: "byte list list \<Rightarrow> byte list list" where
  "round_keys (a # b # c # d # rest) = (a @ b @ c @ d) # round_keys rest"
| "round_keys _ = []"

text \<open>
  A key of \<open>nk\<close> words gives \<open>nk + 6\<close> rounds and \<open>4 * (nk + 7)\<close> words of key
  schedule, of which the key itself is the first \<open>nk\<close>.
\<close>

definition KeyExpansion :: "byte list \<Rightarrow> byte list list" where
  "KeyExpansion key =
     (let nk = length key div 4
      in round_keys (KeyExpansion_loop (4 * (nk + 7) - nk) nk nk 1 (words_of key)))"

fun ShiftRows :: "byte list \<Rightarrow> byte list" where
  "ShiftRows [s0, s1, s2, s3, s4, s5, s6, s7, s8, s9, s10, s11, s12, s13, s14, s15] =
     [s0, s5, s10, s15, s4, s9, s14, s3, s8, s13, s2, s7, s12, s1, s6, s11]"
| "ShiftRows s = s"

fun MixColumn :: "byte list \<Rightarrow> byte list" where
  "MixColumn [a0, a1, a2, a3] =
     [xtime a0 XOR (xtime a1 XOR a1) XOR a2 XOR a3,
      a0 XOR xtime a1 XOR (xtime a2 XOR a2) XOR a3,
      a0 XOR a1 XOR xtime a2 XOR (xtime a3 XOR a3),
      (xtime a0 XOR a0) XOR a1 XOR a2 XOR xtime a3]"
| "MixColumn w = w"

definition MixColumns :: "byte list \<Rightarrow> byte list" where
  "MixColumns s = concat (map MixColumn (words_of s))"

fun Rounds :: "byte list list \<Rightarrow> byte list \<Rightarrow> byte list" where
  "Rounds [] s = s"
| "Rounds [k] s = xor_block (ShiftRows (map SubByte s)) k"
| "Rounds (k # ks) s = Rounds ks (xor_block (MixColumns (ShiftRows (map SubByte s))) k)"

definition aes_NewCipher :: "byte list \<Rightarrow> error + byte list list" where
  "aes_NewCipher key =
     (if length key = 16 \<or> length key = 24 \<or> length key = 32
      then Inr (KeyExpansion key) else Inl Panic_KeySize)"

fun aes_Encrypt :: "byte list list \<Rightarrow> byte list \<Rightarrow> byte list" where
  "aes_Encrypt [] src = src"
| "aes_Encrypt (k # ks) src = Rounds ks (xor_block src k)"

text \<open>The all-zero 128-bit key and its round keys, for the concrete runs below.\<close>

definition zero_key :: "byte list" where
  "zero_key = replicate 16 0"

definition zero_key_schedule :: "byte list list" where
  "zero_key_schedule =
    [[0x00, 0x00, 0x00, 0x00, 0x00, 0x00, 0x00, 0x00, 0x00, 0x00, 0x00, 0x00, 0x00, 0x00, 0x00, 0x00],
     [0x62, 0x63, 0x63, 0x63, 0x62, 0x63, 0x63, 0x63, 0x62, 0x63, 0x63, 0x63, 0x62, 0x63, 0x63, 0x63],
     [0x9b, 0x98, 0x98, 0xc9, 0xf9, 0xfb, 0xfb, 0xaa, 0x9b, 0x98, 0x98, 0xc9, 0xf9, 0xfb, 0xfb, 0xaa],
     [0x90, 0x97, 0x34, 0x50, 0x69, 0x6c, 0xcf, 0xfa, 0xf2, 0xf4, 0x57, 0x33, 0x0b, 0x0f, 0xac, 0x99],
     [0xee, 0x06, 0xda, 0x7b, 0x87, 0x6a, 0x15, 0x81, 0x75, 0x9e, 0x42, 0xb2, 0x7e, 0x91, 0xee, 0x2b],
     [0x7f, 0x2e, 0x2b, 0x88, 0xf8, 0x44, 0x3e, 0x09, 0x8d, 0xda, 0x7c, 0xbb, 0xf3, 0x4b, 0x92, 0x90],
     [0xec, 0x61, 0x4b, 0x85, 0x14, 0x25, 0x75, 0x8c, 0x99, 0xff, 0x09, 0x37, 0x6a, 0xb4, 0x9b, 0xa7],
     [0x21, 0x75, 0x17, 0x87, 0x35, 0x50, 0x62, 0x0b, 0xac, 0xaf, 0x6b, 0x3c, 0xc6, 0x1b, 0xf0, 0x9b],
     [0x0e, 0xf9, 0x03, 0x33, 0x3b, 0xa9, 0x61, 0x38, 0x97, 0x06, 0x0a, 0x04, 0x51, 0x1d, 0xfa, 0x9f],
     [0xb1, 0xd4, 0xd8, 0xe2, 0x8a, 0x7d, 0xb9, 0xda, 0x1d, 0x7b, 0xb3, 0xde, 0x4c, 0x66, 0x49, 0x41],
     [0xb4, 0xef, 0x5b, 0xcb, 0x3e, 0x92, 0xe2, 0x11, 0x23, 0xe9, 0x51, 0xcf, 0x6f, 0x8f, 0x18, 0x8e]]"

section \<open>elgamal.go\<close>

record Params =
  P :: int
  Q :: int
  G :: int

record AParams =
  L :: int
  S :: int
  T :: int

text \<open>
  A \<open>*big.Int\<close> that may be nil is an \<open>int option\<close>; \<open>deref\<close> is its use as an
  operand, which panics on nil. \<open>modExp\<close> can return nil (\<open>Exp\<close> does, for a negative
  exponent without inverse); \<open>modMul\<close> cannot. The exponents of \<open>KGen\<close>, \<open>Enc\<close>,
  \<open>AGen\<close>, \<open>AEnc\<close> and \<open>ADec\<close> are draws, loop counters or remainders, hence never
  negative; only \<open>Dec\<close> takes its exponent from the caller.
\<close>

fun deref :: "int option \<Rightarrow> error + int" where
  "deref None = Inl Panic_Nil"
| "deref (Some v) = Inr v"

definition mustRandInt :: "int \<Rightarrow> reader \<Rightarrow> nat \<Rightarrow> error + (int \<times> nat)" where
  "mustRandInt mx rd pos =
     (case rand_Int mx rd pos of
        Inl ReaderError \<Rightarrow> Inl Panic_Reader
      | Inl e \<Rightarrow> Inl e
      | Inr n \<Rightarrow> Inr n)"

definition modMul :: "int \<Rightarrow> int \<Rightarrow> int \<Rightarrow> error + int" where
  "modMul a b m = big_Mod (a * b) m"

definition modExp :: "int \<Rightarrow> int \<Rightarrow> int \<Rightarrow> int option" where
  "modExp a e m = big_Exp a e m"

definition modInverse :: "int \<Rightarrow> int \<Rightarrow> error + int option" where
  "modInverse a p = big_ModInverse a p"

definition KGen :: "Params \<Rightarrow> reader \<Rightarrow> nat \<Rightarrow> error + ((int \<times> int option) \<times> nat)" where
  "KGen pp rd pos =
     bindE (rand_Int (Q pp) rd pos) (\<lambda>(sk0, pos').
     let sk = (if sk0 = 0 then 1 else sk0);
         pk = big_Exp (G pp) sk (P pp)
     in Inr ((sk, pk), pos'))"

text \<open>
  \<open>Enc\<close> declares its results as \<open>(c0, c1, r, err)\<close> and ends with
  \<open>return c1, c0, r, nil\<close>: the first value returned is \<open>g^r mod p\<close>, the second
  \<open>msg * pk^r mod p\<close>.
\<close>

definition Enc ::
  "int \<Rightarrow> int \<Rightarrow> int \<Rightarrow> int \<Rightarrow> int \<Rightarrow> reader \<Rightarrow> nat \<Rightarrow> error + ((int \<times> int \<times> int) \<times> nat)" where
  "Enc p q g pk msg rd pos =
     bindE (rand_Int q rd pos) (\<lambda>(r0, pos').
     let r = (if r0 = 0 then 1 else r0) in
     bindE (deref (big_Exp pk r p)) (\<lambda>pkR.
     bindE (big_Mod (msg * pkR) p) (\<lambda>c0.
     bindE (deref (big_Exp g r p)) (\<lambda>c1.
     Inr ((c1, c0, r), pos')))))"

text \<open>
  \<open>Dec\<close> drops the result of \<open>inv.ModInverse(inv, pp.P)\<close>: when there is no inverse
  \<open>ModInverse\<close> returns nil and leaves its receiver as it was, so \<open>inv\<close> is still
  \<open>c1^sk mod p\<close>.
\<close>

definition Dec :: "Params \<Rightarrow> int \<Rightarrow> int \<Rightarrow> int \<Rightarrow> error + int" where
  "Dec pp sk c0 c1 =
     bindE (deref (big_Exp c1 sk (P pp))) (\<lambda>inv.
     bindE (big_ModInverse inv (P pp)) (\<lambda>res.
     let inv' = (case res of None \<Rightarrow> inv | Some v \<Rightarrow> v)
     in big_Mod (c0 * inv') (P pp)))"

text \<open>
  \<open>F\<close>: \<open>Uint64\<close> is the low 64 bits of the absolute value, \<open>PutUint64\<close> writes them
  least significant byte first, and \<open>SetBytes\<close> of the reversed cipher text reads
  the block as a little-endian number.
\<close>

definition Uint64 :: "int \<Rightarrow> 64 word" where
  "Uint64 x = word_of_int \<bar>x\<bar>"

definition PutUint64 :: "64 word \<Rightarrow> byte list" where
  "PutUint64 v = map (\<lambda>i. ucast (drop_bit (8 * i) v)) [0..<8]"

definition SetBytes :: "byte list \<Rightarrow> int" where
  "SetBytes buf = foldl (\<lambda>acc b. acc * 256 + uint b) 0 buf"

definition F :: "Params \<Rightarrow> byte list \<Rightarrow> int \<Rightarrow> int \<Rightarrow> error + int" where
  "F pp K x y =
     (let plaintext = PutUint64 (Uint64 x) @ PutUint64 (Uint64 y) in
      bindE (aes_NewCipher K) (\<lambda>block.
      big_Mod (SetBytes (rev (aes_Encrypt block plaintext))) (P pp)))"

text \<open>
  The table of \<open>AGen\<close> is keyed by \<open>val.String()\<close>, the decimal numeral of the
  residue (\<open><nil>\<close> for a nil pointer).
\<close>

fun digits :: "nat \<Rightarrow> string" where
  "digits n = (if n < 10 then [''0123456789'' ! n]
               else digits (n div 10) @ [''0123456789'' ! (n mod 10)])"

declare digits.simps [simp del]

definition big_String :: "int option \<Rightarrow> string" where
  "big_String v =
     (case v of
        None \<Rightarrow> ''<nil>''
      | Some x \<Rightarrow> if x < 0 then CHR ''-'' # digits (nat (- x)) else digits (nat x))"

fun rand_Read :: "nat \<Rightarrow> reader \<Rightarrow> nat \<Rightarrow> error + (byte list \<times> nat)" where
  "rand_Read 0 rd pos = Inr ([], pos)"
| "rand_Read (Suc n) rd pos =
     (case rd pos of
        None \<Rightarrow> Inl ReaderError
      | Some e \<Rightarrow> bindE (rand_Read n rd (Suc pos)) (\<lambda>(buf, pos'). Inr (of_nat e # buf, pos')))"

fun AGen_loop :: "nat list \<Rightarrow> Params \<Rightarrow> (string \<rightharpoonup> int) \<Rightarrow> (string \<rightharpoonup> int)" where
  "AGen_loop [] pp Tm = Tm"
| "AGen_loop (i # rest) pp Tm =
     AGen_loop rest pp (Tm(big_String (modExp (G pp) (int i) (P pp)) \<mapsto> int i))"

definition AGen ::
  "int \<Rightarrow> Params \<Rightarrow> int \<Rightarrow> reader \<Rightarrow> nat \<Rightarrow> error + ((byte list \<times> (string \<rightharpoonup> int) \<times> int) \<times> nat)" where
  "AGen l pp pk rd pos =
     (case rand_Read 16 rd pos of
        Inl e \<Rightarrow> Inl Panic_Reader
      | Inr (K, pos') \<Rightarrow> Inr ((K, AGen_loop [0..<nat l] pp Map.empty, pk), pos'))"

text \<open>
  One pass of the body of the \<open>for\<close> of \<open>AEnc\<close>: two draws, the test
  \<open>d(g^r) = y\<close>, and on success the cipher text. \<open>None\<close> is a rejected sample.
\<close>

definition AEnc_attempt ::
  "AParams \<Rightarrow> Params \<Rightarrow> byte list \<Rightarrow> int \<Rightarrow> int \<Rightarrow> int \<Rightarrow> reader \<Rightarrow> nat
     \<Rightarrow> error + ((int \<times> int \<times> int) option \<times> nat)" where
  "AEnc_attempt app pp K pk msg cm rd pos =
     bindE (mustRandInt (S app) rd pos) (\<lambda>(x, pos1).
     bindE (mustRandInt (T app) rd pos1) (\<lambda>(y, pos2).
     bindE (F pp K x y) (\<lambda>tVal.
     bindE (big_Mod (cm + tVal) (Q pp)) (\<lambda>r.
     bindE (deref (modExp (G pp) r (P pp))) (\<lambda>gr.
     bindE (big_Mod gr (T app)) (\<lambda>yCheck.
     if yCheck = y then
       bindE (deref (modExp pk r (P pp))) (\<lambda>pkr.
       bindE (modMul msg pkr (P pp)) (\<lambda>c0.
       bindE (deref (modExp (G pp) r (P pp))) (\<lambda>c1.
       Inr (Some (c0, c1, r), pos2))))
     else Inr (None, pos2)))))))"

text \<open>
  The \<open>for\<close> of \<open>AEnc\<close> has no exit but the accepted sample, so the model is a
  partial function: the value \<open>None\<close> is the run that never returns.
\<close>

partial_function (option) AEnc ::
  "AParams \<Rightarrow> Params \<Rightarrow> byte list \<Rightarrow> int \<Rightarrow> int \<Rightarrow> int \<Rightarrow> reader \<Rightarrow> nat
     \<Rightarrow> (error + ((int \<times> int \<times> int) \<times> nat)) option" where
  "AEnc app pp K pk msg cm rd pos =
     (case AEnc_attempt app pp K pk msg cm rd pos of
        Inl e \<Rightarrow> Some (Inl e)
      | Inr (Some c, pos') \<Rightarrow> Some (Inr (c, pos'))
      | Inr (None, pos') \<Rightarrow> AEnc app pp K pk msg cm rd pos')"

text \<open>
  One pass of the body of the \<open>for\<close> of \<open>ADec\<close>, for the candidate \<open>x\<close>. The table,
  the parameter \<open>T\<close> of the source, is written \<open>Tm\<close>: \<open>T\<close> is the field of \<open>AParams\<close>.
\<close>

definition ADec_try ::
  "Params \<Rightarrow> byte list \<Rightarrow> (string \<rightharpoonup> int) \<Rightarrow> int \<Rightarrow> int \<Rightarrow> int \<Rightarrow> error + int option" where
  "ADec_try pp K Tm c1 y x =
     bindE (F pp K x y) (\<lambda>tVal.
     bindE (deref (modExp (G pp) tVal (P pp))) (\<lambda>gt.
     bindE (modInverse gt (P pp)) (\<lambda>invG.
     case invG of
       None \<Rightarrow> Inr None
     | Some iv \<Rightarrow> bindE (modMul c1 iv (P pp)) (\<lambda>sVal. Inr (Tm (big_String (Some sVal)))))))"

fun ADec_loop ::
  "nat \<Rightarrow> int \<Rightarrow> Params \<Rightarrow> byte list \<Rightarrow> (string \<rightharpoonup> int) \<Rightarrow> int \<Rightarrow> int \<Rightarrow> error + int option" where
  "ADec_loop 0 x pp K Tm c1 y = Inr None"
| "ADec_loop (Suc n) x pp K Tm c1 y =
     bindE (ADec_try pp K Tm c1 y x) (\<lambda>hit.
     case hit of
       Some val \<Rightarrow> Inr (Some val)
     | None \<Rightarrow> ADec_loop n (x + 1) pp K Tm c1 y)"

definition ADec ::
  "AParams \<Rightarrow> Params \<Rightarrow> byte list \<Rightarrow> (string \<rightharpoonup> int) \<Rightarrow> int \<Rightarrow> int \<Rightarrow> error + int option" where
  "ADec app pp K Tm c0 c1 =
     bindE (big_Mod c1 (T app)) (\<lambda>y. ADec_loop (nat (S app)) 0 pp K Tm c1 y)"

section \<open>voting.go\<close>

text \<open>
  \<open>EncodeVote\<close>: \<open>Exp\<close> with a nil modulus is the plain power. The arguments are a
  Go \<open>int\<close> and an \<open>int64\<close>; \<open>candidate - 1\<close> is only computed for
  \<open>candidate > 0\<close>, where it cannot wrap, so \<open>int\<close> is exact.
\<close>

definition EncodeVote :: "int \<Rightarrow> int \<Rightarrow> int" where
  "EncodeVote candidate base =
     (if candidate \<le> 0 then 0 else base ^ nat (candidate - 1))"

fun DecodeCounts_loop :: "nat \<Rightarrow> int \<Rightarrow> int \<Rightarrow> error + int list" where
  "DecodeCounts_loop 0 tmp b = Inr []"
| "DecodeCounts_loop (Suc k) tmp b =
     bindE (big_Mod tmp b) (\<lambda>c.
     bindE (big_Div tmp b) (\<lambda>tmp'.
     bindE (DecodeCounts_loop k tmp' b) (\<lambda>counts. Inr (c # counts))))"

definition DecodeCounts :: "int \<Rightarrow> int \<Rightarrow> int \<Rightarrow> error + int list" where
  "DecodeCounts tot numCandidates base =
     (if numCandidates < 0 then Inl Panic_MakeLen
      else DecodeCounts_loop (nat numCandidates) tot base)"

text \<open>
  \<open>SplitSecret\<close>: the error of \<open>rand.Int\<close> is dropped (\<open>x, _ :=\<close>), so after a
  failed read \<open>x\<close> is nil and \<open>Set(x)\<close> panics. The loop returns the shares drawn,
  the remainder and the tape position.
\<close>

fun SplitSecret_loop :: "nat \<Rightarrow> int \<Rightarrow> reader \<Rightarrow> nat \<Rightarrow> error + (int list \<times> int \<times> nat)" where
  "SplitSecret_loop 0 remaining rd pos = Inr ([], remaining, pos)"
| "SplitSecret_loop (Suc k) remaining rd pos =
     (case rand_Int (remaining + 1) rd pos of
        Inl ReaderError \<Rightarrow> Inl Panic_Nil
      | Inl e \<Rightarrow> Inl e
      | Inr (x, pos') \<Rightarrow>
          bindE (SplitSecret_loop k (remaining - x) rd pos') (\<lambda>(parts, rest, pos'').
          Inr (x # parts, rest, pos'')))"

definition SplitSecret :: "int \<Rightarrow> int \<Rightarrow> reader \<Rightarrow> nat \<Rightarrow> error + (int list \<times> nat)" where
  "SplitSecret r n rd pos =
     (if n < 0 then Inl Panic_MakeLen
      else if n = 0 then Inl Panic_Index
      else bindE (SplitSecret_loop (nat (n - 1)) r rd pos) (\<lambda>(parts, remaining, pos').
           Inr (parts @ [remaining], pos')))"

definition ComputeBlindVotes ::
  "int \<Rightarrow> int \<Rightarrow> int \<Rightarrow> int list \<Rightarrow> Params \<Rightarrow> AParams \<Rightarrow> error + int" where
  "ComputeBlindVotes vi r base shares pp app =
     (let v_i = EncodeVote vi base;
          sumShares = foldl (+) 0 shares;
          bi = v_i + r - sumShares
      in big_Mod bi (L app))"

text \<open>
  \<open>TallyVotes\<close>: \<open>bigS\<close> is the local \<open>S := big.NewInt(int64(app.L))\<close>. The
  conversion of a decrypted value to its signed representative is the \<open>if\<close> of the
  loop body.
\<close>

definition TallyVotes_signed :: "int \<Rightarrow> int \<Rightarrow> int \<Rightarrow> int" where
  "TallyVotes_signed bigS half b = (if half < b then b - bigS else b)"

fun TallyVotes_loop ::
  "AParams \<Rightarrow> Params \<Rightarrow> byte list \<Rightarrow> (string \<rightharpoonup> int) \<Rightarrow> int \<Rightarrow> int
     \<Rightarrow> (int \<times> int) list \<Rightarrow> int \<Rightarrow> error + int" where
  "TallyVotes_loop app pp K Tmap bigS half [] acc = Inr acc"
| "TallyVotes_loop app pp K Tmap bigS half (vote # votes) acc =
     bindE (ADec app pp K Tmap (fst vote) (snd vote)) (\<lambda>bi.
     case bi of
       None \<Rightarrow> TallyVotes_loop app pp K Tmap bigS half votes acc
     | Some b \<Rightarrow>
         TallyVotes_loop app pp K Tmap bigS half votes (acc + TallyVotes_signed bigS half b))"

definition TallyVotes ::
  "AParams \<Rightarrow> Params \<Rightarrow> byte list \<Rightarrow> (string \<rightharpoonup> int) \<Rightarrow> (int \<times> int) list \<Rightarrow> error + int" where
  "TallyVotes app pp K Tmap votes =
     (let bigS = L app; half = bigS div 2 in
      bindE (TallyVotes_loop app pp K Tmap bigS half votes 0) (\<lambda>acc. big_Mod acc bigS))"

section \<open>main.go\<close>

text \<open>
  The registry \<open>users\<close> is a map from identifiers to \<open>*User\<close>, walked through the
  list of its keys; here it is the list of the users in that order, a user being
  named by its position. The fields \<open>K\<close>, \<open>Tmap\<close> and \<open>r\<close> of \<open>User\<close> are written
  \<open>userK\<close>, \<open>userTmap\<close> and \<open>user_r\<close>; \<open>r\<close> is nil until \<open>DistributeShares\<close> sets it.
\<close>

record User =
  userID :: string
  ask :: int
  apk :: "int option"
  userK :: "byte list"
  userTmap :: "string \<rightharpoonup> int"
  user_r :: "int option"
  Shares :: "int list"

definition deliver :: "int list \<Rightarrow> User list \<Rightarrow> User list" where
  "deliver shares users =
     map (\<lambda>(receiver, s). receiver\<lparr>Shares := Shares receiver @ [s]\<rparr>) (zip users shares)"

fun DistributeShares_loop ::
  "int \<Rightarrow> int \<Rightarrow> nat list \<Rightarrow> User list \<Rightarrow> reader \<Rightarrow> nat \<Rightarrow> error + (User list \<times> nat)" where
  "DistributeShares_loop low high [] users rd pos = Inr (users, pos)"
| "DistributeShares_loop low high (sender # rest) users rd pos =
     (case rand_Int (high - low) rd pos of
        Inl ReaderError \<Rightarrow> Inl Panic_Nil
      | Inl e \<Rightarrow> Inl e
      | Inr (x, pos1) \<Rightarrow>
          let r_i = x + low;
              users1 = users[sender := (users ! sender)\<lparr>user_r := Some r_i\<rparr>]
          in bindE (SplitSecret r_i (int (length users)) rd pos1) (\<lambda>(shares, pos2).
             DistributeShares_loop low high rest (deliver shares users1) rd pos2))"

definition DistributeShares ::
  "int \<Rightarrow> int \<Rightarrow> User list \<Rightarrow> reader \<Rightarrow> nat \<Rightarrow> error + (User list \<times> nat)" where
  "DistributeShares low high users rd pos =
     DistributeShares_loop low high [0..<length users] users rd pos"

section \<open>Runs of the block cipher\<close>

text \<open>
  The example of Appendix B of FIPS 197 checks the model of the cipher against the
  standard.
\<close>

lemma aes_fips197_example:
  "bindE (aes_NewCipher [0x2b, 0x7e, 0x15, 0x16, 0x28, 0xae, 0xd2, 0xa6,
                         0xab, 0xf7, 0x15, 0x88, 0x09, 0xcf, 0x4f, 0x3c])
     (\<lambda>block. Inr (aes_Encrypt block [0x32, 0x43, 0xf6, 0xa8, 0x88, 0x5a, 0x30, 0x8d,
                                       0x31, 0x31, 0x98, 0xa2, 0xe0, 0x37, 0x07, 0x34]))
   = Inr [0x39, 0x25, 0x84, 0x1d, 0x02, 0xdc, 0x09, 0xfb,
          0xdc, 0x11, 0x85, 0x97, 0x19, 0x6a, 0x0b, 0x32]"
  by code_simp

lemma NewCipher_zero_key: "aes_NewCipher zero_key = Inr zero_key_schedule"
  by code_simp

text \<open>
  The blocks that \<open>F\<close> encrypts under the all-zero key for the samples \<open>(0, 0)\<close> and
  \<open>(1, 0)\<close>, and the two values of \<open>F\<close> they give in the group of residues modulo 7:
  read as little-endian numbers the cipher texts are
  \<open>0x2e2b34ca59fa4c883b2c8aefd44be966\<close> and \<open>0xd30f8ef52bbfbb59f06f1de916187147\<close>.
  The concrete runs below need no other value of \<open>F\<close>.
\<close>

lemma aes_zero_key_0_0:
  "aes_Encrypt zero_key_schedule (PutUint64 (Uint64 0) @ PutUint64 (Uint64 0))
     = [0x66, 0xe9, 0x4b, 0xd4, 0xef, 0x8a, 0x2c, 0x3b, 0x88, 0x4c, 0xfa, 0x59, 0xca, 0x34, 0x2b, 0x2e]"
  by code_simp

lemma aes_zero_key_1_0:
  "aes_Encrypt zero_key_schedule (PutUint64 (Uint64 1) @ PutUint64 (Uint64 0))
     = [0x47, 0x71, 0x18, 0x16, 0xe9, 0x1d, 0x6f, 0xf0, 0x59, 0xbb, 0xbf, 0x2b, 0xf5, 0x8e, 0x0f, 0xd3]"
  by code_simp

lemma F_zero_key_0_0: "F \<lparr>P = 7, Q = 6, G = 3\<rparr> zero_key 0 0 = Inr 6"
  unfolding F_def Let_def NewCipher_zero_key bindE.simps aes_zero_key_0_0 by code_simp

lemma F_zero_key_1_0: "F \<lparr>P = 7, Q = 6, G = 3\<rparr> zero_key 1 0 = Inr 2"
  unfolding F_def Let_def NewCipher_zero_key bindE.simps aes_zero_key_1_0 by code_simp

section \<open>Facts about the operations of \<open>math/big\<close>\<close>

lemma bindE_Inr_iff: "bindE m f = Inr v \<longleftrightarrow> (\<exists>a. m = Inr a \<and> f a = Inr v)"
  by (cases m) auto

lemma big_Exp_not_nil: "0 \<le> y \<Longrightarrow> big_Exp x y m \<noteq> None"
  by (simp add: big_Exp_def)

lemma big_ModInverse_correct:
  assumes "1 < m" and "gcd (a mod m) m = 1"
  shows "\<exists>iv. big_ModInverse a m = Inr (Some iv) \<and> a * iv mod m = 1"
proof -
  let ?x = "nat (a mod m)" and ?y = "nat m"
  have "int (gcd ?x ?y) = fst (bezw ?x ?y) * int ?x + snd (bezw ?x ?y) * int ?y"
    by (rule bezw_aux)
  moreover have "int (gcd ?x ?y) = 1"
    using assms by (simp add: gcd_int_def)
  ultimately have "fst (bezw ?x ?y) * (a mod m) + snd (bezw ?x ?y) * m = 1"
    using assms(1) by simp
  then have "(fst (bezw ?x ?y) * (a mod m) + snd (bezw ?x ?y) * m) mod m = 1"
    using assms(1) by simp
  then have "(a mod m) * fst (bezw ?x ?y) mod m = 1"
    by (simp add: mult.commute)
  then have "a * (fst (bezw ?x ?y) mod m) mod m = 1"
    by (metis mod_mult_eq mod_mod_trivial)
  then show ?thesis
    using assms by (simp add: big_ModInverse_def Let_def)
qed

lemma power_mod_period:
  fixes g p q a :: int
  assumes "g ^ nat q mod p = 1" and "0 < q" and "0 \<le> a"
  shows "g ^ nat (a mod q) mod p = g ^ nat a mod p"
proof -
  have "nat a = nat q * nat (a div q) + nat (a mod q)"
    using assms(2,3)
    by (metis div_mult_mod_eq mult.commute nat_add_distrib nat_mult_distrib pos_imp_zdiv_nonneg_iff
        pos_mod_sign zero_le_mult_iff less_imp_le)
  then have "g ^ nat a = (g ^ nat q) ^ nat (a div q) * g ^ nat (a mod q)"
    by (metis power_add power_mult)
  then have "g ^ nat a mod p = ((g ^ nat q mod p) ^ nat (a div q) mod p) * (g ^ nat (a mod q) mod p) mod p"
    by (simp add: mod_mult_eq power_mod)
  moreover have "1 mod p = 1"
    by (metis assms(1) mod_mod_trivial)
  ultimately show ?thesis
    by (simp add: assms(1))
qed

section \<open>Properties of elgamal.go\<close>

text \<open>
  C3. The claim: for a key pair of \<open>KGen\<close> and a message \<open>m\<close> of \<open>[0, p)\<close>, \<open>Dec\<close>
  applied to the first two values that \<open>Enc\<close> returns, in order, gives \<open>m\<close> back.
  The run below has the key pair \<open>(2, 2)\<close> in the group modulo 7 with generator 3,
  the message 4 and the draw \<open>r = 1\<close>: \<open>Enc\<close> returns \<open>g^r = 3\<close> first and
  \<open>m * pk^r = 1\<close> second, and \<open>Dec\<close> on them in that order yields 3, not 4.
\<close>

theorem Enc_returns_swapped_pair:
  "KGen \<lparr>P = 7, Q = 6, G = 3\<rparr> (\<lambda>i. Some 2) 0 = Inr ((2, Some 2), 1) \<and>
   Enc 7 6 3 2 4 (\<lambda>i. Some 1) 0 = Inr ((3, 1, 1), 1) \<and>
   Dec \<lparr>P = 7, Q = 6, G = 3\<rparr> 2 3 1 = Inr 3"
  by (simp add: KGen_def Enc_def Dec_def rand_Int_def big_Exp_def big_Mod_def
      big_ModInverse_def bezw.simps)

text \<open>
  With the pair put back in the declared order the decryption is right: for a modulus
  \<open>p > 1\<close>, a generator coprime to it and a message of \<open>[0, p)\<close>, \<open>Dec\<close> applied to the
  second and then the first value of \<open>Enc\<close> is the message.
\<close>

lemma Dec_Enc_declared_order:
  assumes p: "1 < p" and g: "coprime g p" and m: "0 \<le> m" "m < p" and sk: "0 \<le> sk"
      and pk: "pk = g ^ nat sk mod p"
      and enc: "Enc p q g pk m rd pos = Inr ((a, b, r), pos')"
  shows "Dec \<lparr>P = p, Q = q, G = g\<rparr> sk b a = Inr m"
proof -
  from enc obtain r0 where draw: "rand_Int q rd pos = Inr (r0, pos')"
    and r: "r = (if r0 = 0 then 1 else r0)"
    by (auto simp: Enc_def bindE_Inr_iff Let_def)
  from draw have "0 \<le> r0"
    by (auto simp: rand_Int_def split: if_splits option.splits)
  with r have r_pos: "0 \<le> r"
    by simp
  from enc draw r r_pos p have a: "a = g ^ nat r mod p" and b: "b = m * (pk ^ nat r mod p) mod p"
    by (auto simp: Enc_def bindE_Inr_iff big_Exp_def big_Mod_def Let_def split: if_splits)
  let ?s = "g ^ (nat r * nat sk)"
  have pw: "a ^ nat sk mod p = ?s mod p" "pk ^ nat r mod p = ?s mod p"
    unfolding a pk power_mod by (simp_all add: power_mult [symmetric] mult.commute)
  have "coprime (?s mod p) p"
    using g p by (simp add: coprime_mod_left_iff)
  then have "gcd (?s mod p mod p) p = 1"
    by simp
  from big_ModInverse_correct [OF p this]
  obtain iv where iv: "big_ModInverse (?s mod p) p = Inr (Some iv)" "?s mod p * iv mod p = 1"
    by blast
  have "b * iv mod p = m * (?s mod p * iv) mod p"
    by (simp add: b pw(2) mod_mult_left_eq mult.assoc)
  also have "\<dots> = m * (?s mod p * iv mod p) mod p"
    by (simp add: mod_mult_right_eq)
  also have "\<dots> = m"
    using m by (simp add: iv(2))
  finally have "b * iv mod p = m" .
  then show ?thesis
    using p sk iv(1) by (simp add: Dec_def big_Exp_def pw(1) big_Mod_def)
qed

text \<open>
  C8. The claim: when \<open>c1^sk mod p\<close> has no inverse modulo \<open>p\<close>, \<open>Dec\<close> reports an
  error of its own instead of a plaintext. The run below has \<open>p = 7\<close> and \<open>c1 = 0\<close>:
  \<open>c1^sk mod p = 0\<close> has no inverse, and \<open>Dec\<close> returns the ordinary value 0.
\<close>

theorem Dec_without_inverse:
  "big_Exp 0 2 7 = Some 0 \<and> big_ModInverse 0 7 = Inr None \<and>
   Dec \<lparr>P = 7, Q = 6, G = 3\<rparr> 2 3 0 = Inr 0"
  by (simp add: Dec_def big_Exp_def big_Mod_def big_ModInverse_def)

lemma Uint64_mod: "0 \<le> x \<Longrightarrow> Uint64 (x mod 2 ^ 64) = Uint64 x"
  by (simp add: Uint64_def word_of_int_eq_iff take_bit_eq_mod)

text \<open>
  C10. \<open>F\<close> depends only on the low 64 bits of its integer inputs: for all
  non-negative \<open>x\<close> and \<open>y\<close>, \<open>F(pp, K, x, y) = F(pp, K, x mod 2^64, y mod 2^64)\<close>.
  An input of \<open>2^64\<close> or more is truncated, not rejected.
\<close>

theorem F_low_64_bits:
  "0 \<le> x \<Longrightarrow> 0 \<le> y \<Longrightarrow> F pp K x y = F pp K (x mod 2 ^ 64) (y mod 2 ^ 64)"
  unfolding F_def by (simp only: Uint64_mod)

theorem F_low_64_bits_witness:
  "F \<lparr>P = 7, Q = 6, G = 3\<rparr> zero_key (2 ^ 64 + 1) (2 ^ 64) = Inr 2"
  using F_low_64_bits [of "2 ^ 64 + 1" "2 ^ 64" "\<lparr>P = 7, Q = 6, G = 3\<rparr>" zero_key]
  by (simp add: F_zero_key_1_0)

section \<open>Runs in the group of residues modulo 7\<close>

lemma upt6: "[0..<6] = [0, 1, 2, 3, 4, 5]"
  by code_simp

lemma upt2: "[0..<2] = [0, 1]"
  by code_simp

lemma digits_small: "n < 10 \<Longrightarrow> digits n = [''0123456789'' ! n]"
  by (simp add: digits.simps)

lemma rand_Read_zero_key: "rand_Read 16 (\<lambda>i. Some 0) 0 = Inr (zero_key, 16)"
  by (simp add: zero_key_def eval_nat_numeral)

lemma AGen_6:
  "AGen 6 \<lparr>P = 7, Q = 6, G = 3\<rparr> 2 (\<lambda>i. Some 0) 0
     = Inr ((zero_key, [''1'' \<mapsto> 0, ''3'' \<mapsto> 1, ''2'' \<mapsto> 2, ''6'' \<mapsto> 3, ''4'' \<mapsto> 4, ''5'' \<mapsto> 5], 2), 16)"
  unfolding AGen_def rand_Read_zero_key
  by (simp add: upt6 modExp_def big_Exp_def big_String_def digits_small)

lemma AGen_2:
  "AGen 2 \<lparr>P = 7, Q = 6, G = 3\<rparr> 2 (\<lambda>i. Some 0) 0
     = Inr ((zero_key, [''1'' \<mapsto> 0, ''3'' \<mapsto> 1], 2), 16)"
  unfolding AGen_def rand_Read_zero_key
  by (simp add: upt2 modExp_def big_Exp_def big_String_def digits_small)

lemma ADec_try_0:
  "ADec_try \<lparr>P = 7, Q = 6, G = 3\<rparr> zero_key Tm c1 0 0 = Inr (Tm (big_String (Some (c1 mod 7))))"
  by (simp add: ADec_try_def F_zero_key_0_0 modExp_def big_Exp_def modInverse_def
      big_ModInverse_def modMul_def big_Mod_def bezw.simps)

lemma ADec_try_1:
  "ADec_try \<lparr>P = 7, Q = 6, G = 3\<rparr> zero_key Tm c1 0 1 = Inr (Tm (big_String (Some (c1 * 4 mod 7))))"
  by (simp add: ADec_try_def F_zero_key_1_0 modExp_def big_Exp_def modInverse_def
      big_ModInverse_def modMul_def big_Mod_def bezw.simps)

lemma ADec_3_6:
  "ADec \<lparr>L = 6, S = 6, T = 6\<rparr> \<lparr>P = 7, Q = 6, G = 3\<rparr> zero_key
      [''1'' \<mapsto> 0, ''3'' \<mapsto> 1, ''2'' \<mapsto> 2, ''6'' \<mapsto> 3, ''4'' \<mapsto> 4, ''5'' \<mapsto> 5] 3 6 = Inr (Some 3)"
  by (simp add: ADec_def big_Mod_def eval_nat_numeral ADec_try_0 big_String_def digits_small)

section \<open>The loop of \<open>AEnc\<close>\<close>

lemma AEnc_after_rejections:
  "(\<forall>i<n. AEnc_attempt app pp K pk msg cm rd (pos + 2 * i) = Inr (None, pos + 2 * i + 2)) \<Longrightarrow>
     AEnc app pp K pk msg cm rd pos = AEnc app pp K pk msg cm rd (pos + 2 * n)"
proof (induction n arbitrary: pos)
  case 0
  then show ?case by simp
next
  case (Suc n)
  from Suc.prems [rule_format, of 0]
  have first: "AEnc_attempt app pp K pk msg cm rd pos = Inr (None, pos + 2)"
    by simp
  have "\<forall>i<n. AEnc_attempt app pp K pk msg cm rd (pos + 2 + 2 * i) = Inr (None, pos + 2 + 2 * i + 2)"
  proof (intro allI impI)
    fix i assume "i < n"
    with Suc.prems [rule_format, of "Suc i"]
    show "AEnc_attempt app pp K pk msg cm rd (pos + 2 + 2 * i) = Inr (None, pos + 2 + 2 * i + 2)"
      by (simp add: algebra_simps)
  qed
  then have "AEnc app pp K pk msg cm rd (pos + 2) = AEnc app pp K pk msg cm rd (pos + 2 + 2 * n)"
    by (rule Suc.IH)
  moreover have "AEnc app pp K pk msg cm rd pos = AEnc app pp K pk msg cm rd (pos + 2)"
    by (subst AEnc.simps) (simp add: first)
  ultimately show ?case
    by (simp add: algebra_simps)
qed

lemma AEnc_never_returns:
  assumes "AEnc app pp K pk msg cm rd pos = Some res"
  shows "\<not> (\<forall>i. AEnc_attempt app pp K pk msg cm rd (pos + 2 * i) = Inr (None, pos + 2 * i + 2))"
proof (rule AEnc.raw_induct [where P = "\<lambda>app pp K pk msg cm rd pos res.
    \<not> (\<forall>i. AEnc_attempt app pp K pk msg cm rd (pos + 2 * i) = Inr (None, pos + 2 * i + 2))", OF _ assms])
  fix AEnc' app pp K pk msg cm rd pos res
  assume IH: "\<And>app pp K pk msg cm rd pos res. AEnc' app pp K pk msg cm rd pos = Some res \<Longrightarrow>
    \<not> (\<forall>i. AEnc_attempt app pp K pk msg cm rd (pos + 2 * i) = Inr (None, pos + 2 * i + 2))"
    and body: "(case AEnc_attempt app pp K pk msg cm rd pos of
                  Inl e \<Rightarrow> Some (Inl e)
                | Inr (None, pos') \<Rightarrow> AEnc' app pp K pk msg cm rd pos'
                | Inr (Some c, pos') \<Rightarrow> Some (Inr (c, pos'))) = Some res"
  show "\<not> (\<forall>i. AEnc_attempt app pp K pk msg cm rd (pos + 2 * i) = Inr (None, pos + 2 * i + 2))"
  proof
    assume rej: "\<forall>i. AEnc_attempt app pp K pk msg cm rd (pos + 2 * i) = Inr (None, pos + 2 * i + 2)"
    from rej [rule_format, of 0] have first: "AEnc_attempt app pp K pk msg cm rd pos = Inr (None, pos + 2)"
      by simp
    from body have again: "AEnc' app pp K pk msg cm rd (pos + 2) = Some res"
      unfolding first by simp
    have "\<forall>i. AEnc_attempt app pp K pk msg cm rd (pos + 2 + 2 * i) = Inr (None, pos + 2 + 2 * i + 2)"
    proof
      fix i
      from rej [rule_format, of "Suc i"]
      show "AEnc_attempt app pp K pk msg cm rd (pos + 2 + 2 * i) = Inr (None, pos + 2 + 2 * i + 2)"
        by (simp add: algebra_simps)
    qed
    with IH [OF again] show False
      by (rule notE)
  qed
qed

lemma AEnc_attempt_rejected:
  "AEnc_attempt \<lparr>L = 6, S = 6, T = 6\<rparr> \<lparr>P = 7, Q = 6, G = 3\<rparr> zero_key 2 3 1
      (\<lambda>i. Some 0) pos = Inr (None, pos + 2)"
  by (simp add: AEnc_attempt_def mustRandInt_def rand_Int_def F_zero_key_0_0 big_Mod_def
      modExp_def big_Exp_def modMul_def)

text \<open>
  C5. The claim: the loop of \<open>AEnc\<close> is bounded by a configurable number of attempts
  and fails with \<open>AnamorphicEncodingExhausted\<close> beyond it. The code has no such guard.
  Amended: after any number \<open>n\<close> of rejected samples \<open>AEnc\<close> goes on exactly as a
  fresh call at the reader's new position, without failing, and when every sample is
  rejected it does not return.
\<close>

theorem AEnc_no_attempt_bound:
  "((\<forall>i<n. AEnc_attempt app pp K pk msg cm rd (pos + 2 * i) = Inr (None, pos + 2 * i + 2)) \<longrightarrow>
      AEnc app pp K pk msg cm rd pos = AEnc app pp K pk msg cm rd (pos + 2 * n)) \<and>
   ((\<forall>i. AEnc_attempt app pp K pk msg cm rd (pos + 2 * i) = Inr (None, pos + 2 * i + 2)) \<longrightarrow>
      AEnc app pp K pk msg cm rd pos = None)"
proof (intro conjI impI)
  assume "\<forall>i<n. AEnc_attempt app pp K pk msg cm rd (pos + 2 * i) = Inr (None, pos + 2 * i + 2)"
  then show "AEnc app pp K pk msg cm rd pos = AEnc app pp K pk msg cm rd (pos + 2 * n)"
    by (rule AEnc_after_rejections)
next
  assume rej: "\<forall>i. AEnc_attempt app pp K pk msg cm rd (pos + 2 * i) = Inr (None, pos + 2 * i + 2)"
  show "AEnc app pp K pk msg cm rd pos = None"
  proof (cases "AEnc app pp K pk msg cm rd pos")
    case None
    then show ?thesis .
  next
    case (Some res)
    from AEnc_never_returns [OF this] rej show ?thesis
      by (rule notE)
  qed
qed

text \<open>
  The witness: in the group modulo 7 with generator 3, \<open>S = T = L = 6\<close>, the all-zero
  key and the hidden message 1, a reader that always draws 0 proposes the sample
  \<open>(0, 0)\<close> for ever, and it is rejected every time.
\<close>

theorem AEnc_no_attempt_bound_witness:
  "AEnc \<lparr>L = 6, S = 6, T = 6\<rparr> \<lparr>P = 7, Q = 6, G = 3\<rparr> zero_key 2 3 1 (\<lambda>i. Some 0) 0
     = AEnc \<lparr>L = 6, S = 6, T = 6\<rparr> \<lparr>P = 7, Q = 6, G = 3\<rparr> zero_key 2 3 1 (\<lambda>i. Some 0) 6 \<and>
   AEnc \<lparr>L = 6, S = 6, T = 6\<rparr> \<lparr>P = 7, Q = 6, G = 3\<rparr> zero_key 2 3 1 (\<lambda>i. Some 0) 0 = None"
  using AEnc_no_attempt_bound [of 3 "\<lparr>L = 6, S = 6, T = 6\<rparr>" "\<lparr>P = 7, Q = 6, G = 3\<rparr>"
      zero_key 2 3 1 "\<lambda>i. Some 0" 0]
  by (auto simp add: AEnc_attempt_rejected)

text \<open>The counterexample to C5 as stated: that run of \<open>AEnc\<close> never returns.\<close>

theorem AEnc_runs_forever:
  "AEnc \<lparr>L = 6, S = 6, T = 6\<rparr> \<lparr>P = 7, Q = 6, G = 3\<rparr> zero_key 2 3 1 (\<lambda>i. Some 0) 0 = None"
proof (cases "AEnc \<lparr>L = 6, S = 6, T = 6\<rparr> \<lparr>P = 7, Q = 6, G = 3\<rparr> zero_key 2 3 1 (\<lambda>i. Some 0) 0")
  case None
  then show ?thesis .
next
  case (Some res)
  from AEnc_never_returns [OF this] show ?thesis
    by (simp add: AEnc_attempt_rejected)
qed

section \<open>\<open>ADec\<close> after \<open>AEnc\<close>\<close>

lemma digit_char: "d < 10 \<Longrightarrow> of_char (''0123456789'' ! d) = 48 + (d :: nat)"
proof -
  assume "d < 10"
  then have "d = 0 \<or> d = 1 \<or> d = 2 \<or> d = 3 \<or> d = 4 \<or> d = 5 \<or> d = 6 \<or> d = 7 \<or> d = 8 \<or> d = 9"
    by arith
  then show ?thesis
    by (elim disjE) simp_all
qed

lemma digits_value: "foldl (\<lambda>a c. 10 * a + (of_char c - 48)) (0 :: nat) (digits n) = n"
proof (induction n rule: digits.induct)
  case (1 n)
  show ?case
  proof (cases "n < 10")
    case True
    then show ?thesis
      by (subst digits.simps) (simp add: digit_char)
  next
    case False
    then have "foldl (\<lambda>a c. 10 * a + (of_char c - 48)) (0 :: nat) (digits (n div 10)) = n div 10"
      by (rule "1.IH")
    with False show ?thesis
      by (subst digits.simps) (simp add: digit_char)
  qed
qed

lemma digits_inject: "digits m = digits n \<Longrightarrow> m = n"
  by (metis digits_value)

lemma big_String_inject:
  "0 \<le> a \<Longrightarrow> 0 \<le> b \<Longrightarrow> big_String (Some a) = big_String (Some b) \<Longrightarrow> a = b"
  using digits_inject [of "nat a" "nat b"] by (simp add: big_String_def)

lemma AGen_loop_other:
  "k \<notin> (\<lambda>i. big_String (modExp (G pp) (int i) (P pp))) ` set js \<Longrightarrow> AGen_loop js pp Tm k = Tm k"
  by (induction js arbitrary: Tm) auto

lemma AGen_loop_lookup:
  "inj_on (\<lambda>i. big_String (modExp (G pp) (int i) (P pp))) (set js) \<Longrightarrow> i \<in> set js \<Longrightarrow>
     AGen_loop js pp Tm (big_String (modExp (G pp) (int i) (P pp))) = Some (int i)"
proof (induction js arbitrary: Tm)
  case Nil
  then show ?case by simp
next
  case (Cons j js)
  let ?key = "\<lambda>i. big_String (modExp (G pp) (int i) (P pp))"
  have inj: "inj_on ?key (set js)"
    using Cons.prems(1) by (simp add: inj_on_def)
  show ?case
  proof (cases "i \<in> set js")
    case True
    with Cons.IH [OF inj] show ?thesis by simp
  next
    case False
    with Cons.prems(2) have "i = j" by simp
    moreover have "?key j \<notin> ?key ` set js"
      using Cons.prems(1) False \<open>i = j\<close> by (auto simp: inj_on_def)
    ultimately show ?thesis
      by (simp add: AGen_loop_other)
  qed
qed

lemma AEnc_accepted:
  assumes "AEnc app pp K pk msg cm rd pos = Some (Inr (c, pos'))"
  shows "\<exists>p. AEnc_attempt app pp K pk msg cm rd p = Inr (Some c, pos')"
proof -
  have "\<forall>c' p'. (Inr (c, pos') :: error + (int \<times> int \<times> int) \<times> nat) = Inr (c', p') \<longrightarrow>
          (\<exists>p. AEnc_attempt app pp K pk msg cm rd p = Inr (Some c', p'))"
  proof (rule AEnc.raw_induct [where P = "\<lambda>app pp K pk msg cm rd pos res.
      \<forall>c pos'. res = (Inr (c, pos') :: error + (int \<times> int \<times> int) \<times> nat) \<longrightarrow>
        (\<exists>p. AEnc_attempt app pp K pk msg cm rd p = Inr (Some c, pos'))",
      OF _ assms])
    fix AEnc' app pp K pk msg cm rd pos res
    assume IH: "\<And>app pp K pk msg cm rd pos res. AEnc' app pp K pk msg cm rd pos = Some res \<Longrightarrow>
        \<forall>c pos'. res = Inr (c, pos') \<longrightarrow> (\<exists>p. AEnc_attempt app pp K pk msg cm rd p = Inr (Some c, pos'))"
      and body: "(case AEnc_attempt app pp K pk msg cm rd pos of
                  Inl e \<Rightarrow> Some (Inl e)
                | Inr (None, pos') \<Rightarrow> AEnc' app pp K pk msg cm rd pos'
                | Inr (Some c, pos') \<Rightarrow> Some (Inr (c, pos'))) = Some res"
    show "\<forall>c pos'. res = Inr (c, pos') \<longrightarrow> (\<exists>p. AEnc_attempt app pp K pk msg cm rd p = Inr (Some c, pos'))"
    proof (cases "AEnc_attempt app pp K pk msg cm rd pos")
      case (Inl e)
      with body show ?thesis by auto
    next
      case (Inr a)
      obtain o' p' where a: "a = (o', p')"
        by (cases a)
      show ?thesis
      proof (cases o')
        case None
        with body Inr a have "AEnc' app pp K pk msg cm rd p' = Some res"
          by simp
        then show ?thesis
          by (rule IH)
      next
        case (Some c')
        with body Inr a have "res = Inr (c', p')"
          by simp
        with Inr a Some show ?thesis
          by blast
      qed
    qed
  qed
  then show ?thesis by blast
qed

lemma F_Inr:
  assumes "F pp K x y = Inr tVal"
  shows "P pp \<noteq> 0" and "0 \<le> tVal" and "\<exists>block. aes_NewCipher K = Inr block"
  using assms by (auto simp: F_def bindE_Inr_iff big_Mod_def split: if_splits)

lemma F_total: "aes_NewCipher K = Inr block \<Longrightarrow> P pp \<noteq> 0 \<Longrightarrow> \<exists>tVal. F pp K x y = Inr tVal \<and> 0 \<le> tVal"
  by (simp add: F_def big_Mod_def)

lemma AEnc_attempt_sample:
  assumes "AEnc_attempt app pp K pk msg cm rd pos = Inr (Some (c0, c1, r), pos')"
  shows "\<exists>e tVal. rd pos = Some e \<and> pos' = pos + 2 \<and> 0 < S app \<and> 0 < T app \<and> Q pp \<noteq> 0
           \<and> F pp K (int e mod S app) (c1 mod T app) = Inr tVal
           \<and> r = (cm + tVal) mod \<bar>Q pp\<bar>
           \<and> c1 = G pp ^ nat r mod \<bar>P pp\<bar>"
proof -
  from assms obtain x pos1 y pos2 tVal gr where
    x: "mustRandInt (S app) rd pos = Inr (x, pos1)" and
    y: "mustRandInt (T app) rd pos1 = Inr (y, pos2)" and
    t: "F pp K x y = Inr tVal" and
    r: "big_Mod (cm + tVal) (Q pp) = Inr r" and
    gr: "deref (modExp (G pp) r (P pp)) = Inr gr" and
    chk: "big_Mod gr (T app) = Inr y" and
    c1: "deref (modExp (G pp) r (P pp)) = Inr c1" and
    pos': "pos' = pos2"
    by (auto simp: AEnc_attempt_def bindE_Inr_iff split: if_splits)
  from x obtain e where e: "rd pos = Some e" "x = int e mod S app" "0 < S app" "pos1 = Suc pos"
    by (auto simp: mustRandInt_def rand_Int_def split: if_splits option.splits)
  from y have T: "0 < T app" "pos2 = Suc pos1"
    by (auto simp: mustRandInt_def rand_Int_def split: if_splits option.splits)
  from r have rq: "Q pp \<noteq> 0" "r = (cm + tVal) mod \<bar>Q pp\<bar>"
    by (auto simp: big_Mod_def split: if_splits)
  then have "0 \<le> r"
    by simp
  with c1 F_Inr(1) [OF t] have c1v: "c1 = G pp ^ nat r mod \<bar>P pp\<bar>"
    by (auto simp: modExp_def big_Exp_def split: if_splits)
  from gr c1 chk T(1) have "c1 mod T app = y"
    by (auto simp: big_Mod_def split: if_splits)
  with e T rq t c1v pos' show ?thesis
    by auto
qed

lemma ADec_try_total:
  assumes "aes_NewCipher K = Inr block" and "P pp \<noteq> 0"
  shows "\<exists>h. ADec_try pp K Tm c1 y x = Inr h"
proof -
  from F_total [OF assms] obtain tVal where "F pp K x y = Inr tVal" "0 \<le> tVal"
    by blast
  then show ?thesis
    using assms(2)
    by (simp add: ADec_try_def modExp_def big_Exp_def modInverse_def big_ModInverse_def Let_def
        modMul_def big_Mod_def)
qed

lemma ADec_try_accepted:
  assumes F: "F pp K x y = Inr tVal"
      and grp: "1 < P pp" "0 < Q pp" "G pp ^ nat (Q pp) mod P pp = 1"
      and cm: "0 \<le> cm"
      and c1: "c1 = G pp ^ nat ((cm + tVal) mod Q pp) mod P pp"
  shows "ADec_try pp K Tm c1 y x = Inr (Tm (big_String (Some (G pp ^ nat cm mod P pp))))"
proof -
  let ?g = "G pp" and ?p = "P pp"
  let ?gt = "?g ^ nat tVal mod ?p"
  have t: "0 \<le> tVal"
    using F by (rule F_Inr)
  have "?g * ?g ^ (nat (Q pp) - 1) mod ?p = 1"
    using grp(2,3) by (metis Suc_diff_1 power_Suc zero_less_nat_eq)
  then have "coprime ?g ?p"
    by (rule invertible_coprime)
  then have "coprime ?gt ?p"
    using grp(1) by (simp add: coprime_mod_left_iff)
  then have "gcd (?gt mod ?p) ?p = 1"
    by simp
  from big_ModInverse_correct [OF grp(1) this]
  obtain iv where iv: "big_ModInverse ?gt ?p = Inr (Some iv)" "?gt * iv mod ?p = 1"
    by blast
  have "c1 = ?g ^ nat (cm + tVal) mod ?p"
    unfolding c1 using grp(2,3) cm t by (intro power_mod_period) simp_all
  also have "\<dots> = ?g ^ nat cm * ?g ^ nat tVal mod ?p"
    using cm t by (simp add: nat_add_distrib power_add)
  finally have "c1 * iv mod ?p = ?g ^ nat cm * (?g ^ nat tVal * iv) mod ?p"
    by (simp add: mod_mult_left_eq mult.assoc)
  also have "\<dots> = (?g ^ nat cm mod ?p) * (?gt * iv mod ?p) mod ?p"
    by (metis mod_mult_eq mod_mult_left_eq)
  also have "\<dots> = ?g ^ nat cm mod ?p"
    by (simp add: iv(2))
  finally have sVal: "c1 * iv mod ?p = ?g ^ nat cm mod ?p" .
  show ?thesis
    using F t grp(1) iv(1) sVal
    by (simp add: ADec_try_def modExp_def big_Exp_def modInverse_def modMul_def big_Mod_def)
qed

lemma ADec_loop_first_hit:
  assumes "x0 \<le> x" and "x < x0 + int n"
      and "ADec_try pp K Tm c1 y x = Inr (Some v)"
      and "\<forall>x'. x0 \<le> x' \<and> x' < x \<longrightarrow>
             ADec_try pp K Tm c1 y x' = Inr None \<or> ADec_try pp K Tm c1 y x' = Inr (Some v)"
  shows "ADec_loop n x0 pp K Tm c1 y = Inr (Some v)"
  using assms
proof (induction n arbitrary: x0)
  case 0
  then show ?case by simp
next
  case (Suc n)
  show ?case
  proof (cases "x0 = x")
    case True
    with Suc.prems(3) show ?thesis by simp
  next
    case False
    with Suc.prems(1) have before: "x0 < x"
      by simp
    with Suc.prems(4) have
      "ADec_try pp K Tm c1 y x0 = Inr None \<or> ADec_try pp K Tm c1 y x0 = Inr (Some v)"
      by simp
    then show ?thesis
    proof
      assume miss: "ADec_try pp K Tm c1 y x0 = Inr None"
      have "ADec_loop n (x0 + 1) pp K Tm c1 y = Inr (Some v)"
        using before Suc.prems(2,3,4) by (intro Suc.IH) simp_all
      with miss show ?thesis by simp
    next
      assume "ADec_try pp K Tm c1 y x0 = Inr (Some v)"
      then show ?thesis by simp
    qed
  qed
qed

lemma ADec_first_hit:
  assumes "0 < T app" and "0 \<le> x" and "x < S app"
      and "ADec_try pp K Tm c1 (c1 mod T app) x = Inr (Some v)"
      and "\<forall>x'. 0 \<le> x' \<and> x' < x \<longrightarrow>
             ADec_try pp K Tm c1 (c1 mod T app) x' = Inr None
           \<or> ADec_try pp K Tm c1 (c1 mod T app) x' = Inr (Some v)"
  shows "ADec app pp K Tm c0 c1 = Inr (Some v)"
proof -
  have "ADec_loop (nat (S app)) 0 pp K Tm c1 (c1 mod T app) = Inr (Some v)"
    using assms(2-5) by (intro ADec_loop_first_hit [where x = x]) simp_all
  then show ?thesis
    using assms(1) by (simp add: ADec_def big_Mod_def)
qed

text \<open>
  C1. The claim: for every hidden message of \<open>[0, L)\<close>, every cover message and every
  key pair, with the key and the table of \<open>AGen\<close> for the domain size \<open>L\<close>, \<open>ADec\<close>
  recovers the hidden message from the cipher text of \<open>AEnc\<close>. Amended: in a group with
  \<open>p > 1\<close>, \<open>q > 0\<close>, \<open>g^q = 1 (mod p)\<close> and \<open>g^0, ..., g^(L-1)\<close> distinct modulo \<open>p\<close>, when
  \<open>AEnc\<close> returns \<open>(c0, c1, r)\<close>, the \<open>x\<close> of the sample it accepted (the draw two places
  before the reader's final position) hits the table of \<open>ADec\<close> on the hidden message;
  \<open>ADec\<close> returns the entry of the first \<open>x\<close> of \<open>[0, S)\<close> that hits the table; so it
  returns the hidden message when no \<open>x\<close> before the sampled one hits another entry.
\<close>

theorem ADec_AEnc_round_trip:
  assumes gen: "AGen (L app) pp pk rd0 pos0 = Inr ((K, Tm, pk'), pos0')"
      and enc: "AEnc app pp K pk msg cm rd pos = Some (Inr ((c0, c1, r), pos'))"
      and grp: "1 < P pp" "0 < Q pp" "G pp ^ nat (Q pp) mod P pp = 1"
      and powers: "\<forall>i j. 0 \<le> i \<and> i < j \<and> j < L app \<longrightarrow> G pp ^ nat i mod P pp \<noteq> G pp ^ nat j mod P pp"
      and hidden: "0 \<le> cm" "cm < L app"
  shows "\<exists>e. rd (pos' - 2) = Some e
           \<and> ADec_try pp K Tm c1 (c1 mod T app) (int e mod S app) = Inr (Some cm)
           \<and> (\<forall>x v. 0 \<le> x \<and> x < S app
                  \<and> ADec_try pp K Tm c1 (c1 mod T app) x = Inr (Some v)
                  \<and> (\<forall>x'. 0 \<le> x' \<and> x' < x \<longrightarrow> ADec_try pp K Tm c1 (c1 mod T app) x' = Inr None)
                \<longrightarrow> ADec app pp K Tm c0 c1 = Inr (Some v))
           \<and> ((\<forall>x' v. 0 \<le> x' \<and> x' < int e mod S app
                  \<and> ADec_try pp K Tm c1 (c1 mod T app) x' = Inr (Some v) \<longrightarrow> v = cm)
                \<longrightarrow> ADec app pp K Tm c0 c1 = Inr (Some cm))"
proof -
  let ?key = "\<lambda>i. big_String (modExp (G pp) (int i) (P pp))"
  let ?y = "c1 mod T app"
  from gen have Tm: "Tm = AGen_loop [0..<nat (L app)] pp Map.empty"
    by (auto simp: AGen_def split: sum.splits)
  have key: "?key i = big_String (Some (G pp ^ i mod P pp))" for i
    using grp(1) by (simp add: modExp_def big_Exp_def)
  have "inj_on ?key (set [0..<nat (L app)])"
  proof (rule inj_onI)
    fix i j
    assume ij: "i \<in> set [0..<nat (L app)]" "j \<in> set [0..<nat (L app)]" "?key i = ?key j"
    then have "G pp ^ i mod P pp = G pp ^ j mod P pp"
      using grp(1) by (intro big_String_inject) (simp_all add: key)
    moreover have "G pp ^ nat (int a) mod P pp \<noteq> G pp ^ nat (int b) mod P pp"
      if "a < b" "b < nat (L app)" for a b
      using powers that by (intro powers [rule_format]) auto
    ultimately show "i = j"
      using ij(1,2) by (metis atLeastLessThan_iff linorder_neqE_nat nat_int set_upt)
  qed
  moreover have "nat cm \<in> set [0..<nat (L app)]"
    using hidden by auto
  ultimately have "Tm (?key (nat cm)) = Some (int (nat cm))"
    unfolding Tm by (rule AGen_loop_lookup)
  then have entry: "Tm (big_String (Some (G pp ^ nat cm mod P pp))) = Some cm"
    unfolding key using hidden(1) by simp
  from AEnc_accepted [OF enc] obtain p where
    "AEnc_attempt app pp K pk msg cm rd p = Inr (Some (c0, c1, r), pos')"
    by blast
  from AEnc_attempt_sample [OF this] obtain e tVal where acc:
    "rd p = Some e" "pos' = p + 2" "0 < S app" "0 < T app" "F pp K (int e mod S app) ?y = Inr tVal"
    "r = (cm + tVal) mod \<bar>Q pp\<bar>" "c1 = G pp ^ nat r mod \<bar>P pp\<bar>"
    by blast
  let ?x = "int e mod S app"
  have x: "0 \<le> ?x" "?x < S app"
    using acc(3) by simp_all
  have "c1 = G pp ^ nat ((cm + tVal) mod Q pp) mod P pp"
    using acc(6,7) grp(1,2) by simp
  from ADec_try_accepted [OF acc(5) grp hidden(1) this]
  have hit: "ADec_try pp K Tm c1 ?y ?x = Inr (Some cm)"
    by (simp add: entry)
  from F_Inr(3) [OF acc(5)] obtain block where block: "aes_NewCipher K = Inr block"
    by blast
  have first: "ADec app pp K Tm c0 c1 = Inr (Some v)"
    if "0 \<le> x \<and> x < S app \<and> ADec_try pp K Tm c1 ?y x = Inr (Some v)
          \<and> (\<forall>x'. 0 \<le> x' \<and> x' < x \<longrightarrow> ADec_try pp K Tm c1 ?y x' = Inr None)" for x v
    using that acc(4) by (intro ADec_first_hit [where x = x]) simp_all
  have trip: "ADec app pp K Tm c0 c1 = Inr (Some cm)"
    if earlier: "\<forall>x' v. 0 \<le> x' \<and> x' < ?x \<and> ADec_try pp K Tm c1 ?y x' = Inr (Some v) \<longrightarrow> v = cm"
  proof (rule ADec_first_hit [OF acc(4) x hit], intro allI impI)
    fix x' assume x': "0 \<le> x' \<and> x' < ?x"
    from ADec_try_total [OF block, of pp Tm c1 ?y x'] grp(1)
    obtain h where h: "ADec_try pp K Tm c1 ?y x' = Inr h"
      by auto
    show "ADec_try pp K Tm c1 ?y x' = Inr None \<or> ADec_try pp K Tm c1 ?y x' = Inr (Some cm)"
    proof (cases h)
      case None
      with h show ?thesis by simp
    next
      case (Some v)
      with h x' earlier have "v = cm"
        by blast
      with h Some show ?thesis by simp
    qed
  qed
  have "rd (pos' - 2) = Some e"
    using acc(1,2) by simp
  with hit first trip show ?thesis
    by blast
qed

text \<open>
  The witness: the group modulo 7 with generator 3, \<open>S = T = L = 2\<close>, the all-zero key,
  the key pair \<open>(2, 2)\<close>, the cover message 3 and the hidden message 1. The sample
  \<open>(x, y) = (1, 0)\<close> is accepted with \<open>r = 3\<close> and the cipher text is \<open>(3, 6)\<close>; \<open>ADec\<close>
  misses the table at \<open>x = 0\<close>, where the candidate is 6, and finds the entry 1 at
  \<open>x = 1\<close>, where it is 3.
\<close>

theorem ADec_AEnc_round_trip_witness:
  "AGen 2 \<lparr>P = 7, Q = 6, G = 3\<rparr> 2 (\<lambda>i. Some 0) 0
     = Inr ((zero_key, [''1'' \<mapsto> 0, ''3'' \<mapsto> 1], 2), 16) \<and>
   AEnc \<lparr>L = 2, S = 2, T = 2\<rparr> \<lparr>P = 7, Q = 6, G = 3\<rparr> zero_key 2 3 1
      (\<lambda>i. if i = 0 then Some 1 else Some 0) 0 = Some (Inr ((3, 6, 3), 2)) \<and>
   ADec_try \<lparr>P = 7, Q = 6, G = 3\<rparr> zero_key [''1'' \<mapsto> 0, ''3'' \<mapsto> 1] 6 0 0 = Inr None \<and>
   ADec_try \<lparr>P = 7, Q = 6, G = 3\<rparr> zero_key [''1'' \<mapsto> 0, ''3'' \<mapsto> 1] 6 0 1 = Inr (Some 1) \<and>
   ADec \<lparr>L = 2, S = 2, T = 2\<rparr> \<lparr>P = 7, Q = 6, G = 3\<rparr> zero_key [''1'' \<mapsto> 0, ''3'' \<mapsto> 1] 3 6
     = Inr (Some 1)"
proof -
  let ?app = "\<lparr>L = 2, S = 2, T = 2\<rparr>" and ?pp = "\<lparr>P = 7, Q = 6, G = 3\<rparr>"
  let ?Tm = "[''1'' \<mapsto> 0, ''3'' \<mapsto> (1 :: int)]"
  let ?rd = "\<lambda>i :: nat. if i = 0 then Some (1 :: nat) else Some 0"
  have gen: "AGen (L ?app) ?pp 2 (\<lambda>i. Some 0) 0 = Inr ((zero_key, ?Tm, 2), 16)"
    using AGen_2 by simp
  have "AEnc_attempt ?app ?pp zero_key 2 3 1 ?rd 0 = Inr (Some (3, 6, 3), 2)"
    by (simp add: AEnc_attempt_def mustRandInt_def rand_Int_def F_zero_key_1_0 big_Mod_def
        modExp_def big_Exp_def modMul_def numeral_2_eq_2)
  then have enc: "AEnc ?app ?pp zero_key 2 3 1 ?rd 0 = Some (Inr ((3, 6, 3), 2))"
    by (subst AEnc.simps) simp
  have grp: "1 < P ?pp" "0 < Q ?pp" "G ?pp ^ nat (Q ?pp) mod P ?pp = 1"
    by simp_all
  have powers: "\<forall>i j. 0 \<le> i \<and> i < j \<and> j < L ?app \<longrightarrow>
      G ?pp ^ nat i mod P ?pp \<noteq> G ?pp ^ nat j mod P ?pp"
  proof (intro allI impI)
    fix i j :: int
    assume "0 \<le> i \<and> i < j \<and> j < L ?app"
    then have "i = 0" "j = 1"
      by simp_all
    then show "G ?pp ^ nat i mod P ?pp \<noteq> G ?pp ^ nat j mod P ?pp"
      by simp
  qed
  have hidden: "(0 :: int) \<le> 1" "1 < L ?app"
    by simp_all
  have miss: "ADec_try ?pp zero_key ?Tm 6 0 0 = Inr None"
    by (simp add: ADec_try_0 big_String_def digits_small)
  have hit: "ADec_try ?pp zero_key ?Tm 6 0 1 = Inr (Some 1)"
    by (simp add: ADec_try_1 big_String_def digits_small)
  from ADec_AEnc_round_trip [OF gen enc grp powers hidden]
  obtain e where e: "?rd (2 - 2) = Some e"
    and trip: "(\<forall>x' v. 0 \<le> x' \<and> x' < int e mod S ?app
                  \<and> ADec_try ?pp zero_key ?Tm 6 (6 mod T ?app) x' = Inr (Some v) \<longrightarrow> v = 1)
                \<longrightarrow> ADec ?app ?pp zero_key ?Tm 3 6 = Inr (Some 1)"
    by blast
  from e have x: "int e mod S ?app = 1"
    by simp
  have "\<forall>x' v. 0 \<le> x' \<and> x' < int e mod S ?app
          \<and> ADec_try ?pp zero_key ?Tm 6 (6 mod T ?app) x' = Inr (Some v) \<longrightarrow> v = 1"
  proof (intro allI impI)
    fix x' v :: int
    assume a: "0 \<le> x' \<and> x' < int e mod S ?app
      \<and> ADec_try ?pp zero_key ?Tm 6 (6 mod T ?app) x' = Inr (Some v)"
    with x have "x' = 0"
      by simp
    with a miss show "v = 1"
      by simp
  qed
  with trip have "ADec ?app ?pp zero_key ?Tm 3 6 = Inr (Some 1)"
    by (rule mp)
  with AGen_2 enc miss hit show ?thesis
    by simp
qed

text \<open>
  The counterexample to C1 as stated: the same group and key pair, \<open>S = T = L = 6\<close>,
  the cover message 3 and the hidden message 1. The sample \<open>(x, y) = (1, 0)\<close> is
  accepted with \<open>r = 3\<close> and the cipher text is \<open>(3, 6)\<close>; \<open>ADec\<close> starts at \<open>x = 0\<close>,
  where \<open>c1 / g^F(K, 0, 0) = 6\<close> is already in the table, and returns its entry 3.
\<close>

theorem ADec_returns_earlier_hit:
  "KGen \<lparr>P = 7, Q = 6, G = 3\<rparr> (\<lambda>i. Some 2) 0 = Inr ((2, Some 2), 1) \<and>
   AGen 6 \<lparr>P = 7, Q = 6, G = 3\<rparr> 2 (\<lambda>i. Some 0) 0
     = Inr ((zero_key,
             [''1'' \<mapsto> 0, ''3'' \<mapsto> 1, ''2'' \<mapsto> 2, ''6'' \<mapsto> 3, ''4'' \<mapsto> 4, ''5'' \<mapsto> 5], 2), 16) \<and>
   AEnc \<lparr>L = 6, S = 6, T = 6\<rparr> \<lparr>P = 7, Q = 6, G = 3\<rparr> zero_key 2 3 1
      (\<lambda>i. if i = 0 then Some 1 else Some 0) 0 = Some (Inr ((3, 6, 3), 2)) \<and>
   ADec_try \<lparr>P = 7, Q = 6, G = 3\<rparr> zero_key
      [''1'' \<mapsto> 0, ''3'' \<mapsto> 1, ''2'' \<mapsto> 2, ''6'' \<mapsto> 3, ''4'' \<mapsto> 4, ''5'' \<mapsto> 5] 6 0 0 = Inr (Some 3) \<and>
   ADec \<lparr>L = 6, S = 6, T = 6\<rparr> \<lparr>P = 7, Q = 6, G = 3\<rparr> zero_key
      [''1'' \<mapsto> 0, ''3'' \<mapsto> 1, ''2'' \<mapsto> 2, ''6'' \<mapsto> 3, ''4'' \<mapsto> 4, ''5'' \<mapsto> 5] 3 6 = Inr (Some 3)"
proof -
  have "AEnc_attempt \<lparr>L = 6, S = 6, T = 6\<rparr> \<lparr>P = 7, Q = 6, G = 3\<rparr> zero_key 2 3 1
          (\<lambda>i. if i = 0 then Some 1 else Some 0) 0 = Inr (Some (3, 6, 3), 2)"
    by (simp add: AEnc_attempt_def mustRandInt_def rand_Int_def F_zero_key_1_0 big_Mod_def
        modExp_def big_Exp_def modMul_def numeral_2_eq_2)
  then have "AEnc \<lparr>L = 6, S = 6, T = 6\<rparr> \<lparr>P = 7, Q = 6, G = 3\<rparr> zero_key 2 3 1
          (\<lambda>i. if i = 0 then Some 1 else Some 0) 0 = Some (Inr ((3, 6, 3), 2))"
    by (subst AEnc.simps) simp
  moreover have "KGen \<lparr>P = 7, Q = 6, G = 3\<rparr> (\<lambda>i. Some 2) 0 = Inr ((2, Some 2), 1)"
    by (simp add: KGen_def rand_Int_def big_Exp_def)
  moreover have "ADec_try \<lparr>P = 7, Q = 6, G = 3\<rparr> zero_key
      [''1'' \<mapsto> 0, ''3'' \<mapsto> 1, ''2'' \<mapsto> 2, ''6'' \<mapsto> 3, ''4'' \<mapsto> 4, ''5'' \<mapsto> 5] 6 0 0 = Inr (Some 3)"
    by (simp add: ADec_try_0 big_String_def digits_small)
  ultimately show ?thesis
    using AGen_6 ADec_3_6 by simp
qed

section \<open>Properties of voting.go\<close>

lemma foldl_add_sum_list: "foldl (+) a xs = a + sum_list (xs :: int list)"
  by (induction xs arbitrary: a) simp_all

text \<open>
  C9. For a domain size \<open>L > 0\<close>, \<open>ComputeBlindVotes\<close> returns a value of \<open>[0, L)\<close>
  for every candidate, randomness, base and share list, also when
  \<open>EncodeVote + r - sum(shares)\<close> is negative: the final \<open>Mod\<close> is Euclidean.
\<close>

theorem ComputeBlindVotes_range:
  "0 < L app \<Longrightarrow>
     \<exists>bi. ComputeBlindVotes vi r base shares pp app = Inr bi \<and> 0 \<le> bi \<and> bi < L app"
  by (simp add: ComputeBlindVotes_def big_Mod_def Let_def)

theorem ComputeBlindVotes_range_witness:
  "0 < L \<lparr>L = 10, S = 10, T = 10\<rparr> \<and>
   ComputeBlindVotes 1 2 6 [5, 4] \<lparr>P = 7, Q = 6, G = 3\<rparr> \<lparr>L = 10, S = 10, T = 10\<rparr> = Inr 4"
  using ComputeBlindVotes_range [of "\<lparr>L = 10, S = 10, T = 10\<rparr>" 1 2 6 "[5, 4]" "\<lparr>P = 7, Q = 6, G = 3\<rparr>"]
  by (simp add: ComputeBlindVotes_def big_Mod_def EncodeVote_def)

lemma SplitSecret_loop_sum:
  "0 \<le> remaining \<Longrightarrow> (\<forall>i<k. rd (pos + i) \<noteq> None) \<Longrightarrow>
     \<exists>parts rest. SplitSecret_loop k remaining rd pos = Inr (parts, rest, pos + k)
        \<and> length parts = k \<and> sum_list parts + rest = remaining \<and> 0 \<le> rest"
proof (induction k arbitrary: remaining pos)
  case 0
  then show ?case by simp
next
  case (Suc k)
  from Suc.prems(2) obtain e where e: "rd pos = Some e"
    by (metis add.right_neutral not_None_eq zero_less_Suc)
  define x where "x = int e mod (remaining + 1)"
  have x: "0 \<le> x" "x \<le> remaining"
    using Suc.prems(1) by (simp_all add: x_def) (smt (verit) pos_mod_bound)
  have later: "\<forall>i<k. rd (Suc pos + i) \<noteq> None"
    using Suc.prems(2) by (metis Suc_less_eq add_Suc_right add_Suc)
  from Suc.IH [of "remaining - x" "Suc pos"] x later
  obtain parts rest where
    "SplitSecret_loop k (remaining - x) rd (Suc pos) = Inr (parts, rest, Suc pos + k)"
    "length parts = k" "sum_list parts + rest = remaining - x" "0 \<le> rest"
    by auto
  then show ?case
    using Suc.prems(1) e by (simp add: rand_Int_def x_def)
qed

lemma SplitSecret_shares:
  assumes "1 \<le> n" and "0 \<le> r" and "\<forall>i < nat (n - 1). rd (pos + i) \<noteq> None"
  shows "\<exists>parts. SplitSecret r n rd pos = Inr (parts, pos + nat (n - 1))
           \<and> int (length parts) = n \<and> sum_list parts = r"
proof -
  from SplitSecret_loop_sum [OF assms(2,3)]
  obtain parts rest where
    "SplitSecret_loop (nat (n - 1)) r rd pos = Inr (parts, rest, pos + nat (n - 1))"
    "length parts = nat (n - 1)" "sum_list parts + rest = r"
    by blast
  then show ?thesis
    using assms(1) by (simp add: SplitSecret_def)
qed

text \<open>
  C4. For every \<open>n \<ge> 1\<close> and every secret \<open>r \<ge> 0\<close>, \<open>SplitSecret(r, n)\<close> returns
  \<open>n\<close> shares whose sum over the integers is exactly \<open>r\<close>. It draws \<open>n - 1\<close>
  times; the reads are taken to succeed.
\<close>

theorem SplitSecret_sum:
  "1 \<le> n \<Longrightarrow> 0 \<le> r \<Longrightarrow> (\<forall>i < nat (n - 1). rd (pos + i) \<noteq> None) \<Longrightarrow>
     \<exists>parts pos'. SplitSecret r n rd pos = Inr (parts, pos')
        \<and> int (length parts) = n \<and> sum_list parts = r"
  using SplitSecret_shares [of n r rd pos] by blast

theorem SplitSecret_sum_witness:
  "SplitSecret 10 3 (\<lambda>i. Some (7 * i + 4)) 0 = Inr ([4, 4, 2], 2) \<and> sum_list [4, 4, 2] = (10::int)"
  using SplitSecret_sum [of 3 10 "\<lambda>i. Some (7 * i + 4)" 0]
  by (simp add: SplitSecret_def rand_Int_def numeral_2_eq_2)

lemma DecodeCounts_loop_digits:
  "0 < b \<Longrightarrow> (\<forall>i<m. 0 \<le> f i \<and> f i < b) \<Longrightarrow>
     DecodeCounts_loop m ((\<Sum>i<m. f i * b ^ i) + b ^ m * rest) b = Inr (map f [0..<m])"
proof (induction m arbitrary: f rest)
  case 0
  then show ?case by simp
next
  case (Suc m)
  let ?t = "(\<Sum>i<m. f (Suc i) * b ^ i) + b ^ m * rest"
  have split: "(\<Sum>i<Suc m. f i * b ^ i) + b ^ Suc m * rest = f 0 + b * ?t"
    by (simp add: sum.lessThan_Suc_shift sum_distrib_left algebra_simps del: sum.lessThan_Suc)
  have d0: "0 \<le> f 0" "f 0 < b"
    using Suc.prems(2) by auto
  have md: "(f 0 + b * ?t) mod b = f 0" "(f 0 + b * ?t) div b = ?t"
    using d0 Suc.prems(1) by simp_all
  have IH: "DecodeCounts_loop m ?t b = Inr (map (\<lambda>i. f (Suc i)) [0..<m])"
    using Suc.IH [of "\<lambda>i. f (Suc i)" rest] Suc.prems by auto
  have "map f [0..<Suc m] = f 0 # map (\<lambda>i. f (Suc i)) [0..<m]"
    by (simp add: upt_conv_Cons map_Suc_upt [symmetric] del: upt_Suc)
  then show ?case
    unfolding split using Suc.prems(1) md IH
    by (simp add: big_Mod_def big_Div_def del: upt_Suc)
qed

lemma sum_EncodeVote:
  "(\<forall>c\<in>set cs. 1 \<le> c \<and> c \<le> int m) \<Longrightarrow>
     (\<Sum>c\<leftarrow>cs. EncodeVote c b) = (\<Sum>i<m. int (count_list cs (int i + 1)) * b ^ i)"
proof (induction cs)
  case Nil
  then show ?case by simp
next
  case (Cons c cs)
  then have c: "1 \<le> c" "c \<le> int m"
    by auto
  then have idx: "nat (c - 1) < m"
    by linarith
  have "(\<Sum>i<m. int (count_list (c # cs) (int i + 1)) * b ^ i)
        = (\<Sum>i<m. int (count_list cs (int i + 1)) * b ^ i + (if i = nat (c - 1) then b ^ i else 0))"
    using c by (intro sum.cong) (auto simp: algebra_simps)
  also have "\<dots> = (\<Sum>i<m. int (count_list cs (int i + 1)) * b ^ i) + b ^ nat (c - 1)"
    using idx by (simp add: sum.distrib)
  finally show ?case
    using Cons c by (simp add: EncodeVote_def)
qed

text \<open>
  C6. With 8 candidates and base 6: for every list of chosen candidates among
  \<open>1, ..., 8\<close> in which no candidate is chosen 6 times or more, \<open>DecodeCounts\<close> of
  the sum of the \<open>EncodeVote(c, 6)\<close>, with \<open>numCandidates = 8\<close> and \<open>base = 6\<close>,
  is the list of the candidates' vote counts, the count of candidate 1 first.
\<close>

theorem DecodeCounts_EncodeVote_inverse:
  assumes "\<forall>c\<in>set cs. 1 \<le> c \<and> c \<le> 8"
      and "\<forall>k\<in>{1..8}. count_list cs k < 6"
  shows "DecodeCounts (\<Sum>c\<leftarrow>cs. EncodeVote c 6) 8 6 = Inr (map (\<lambda>k. int (count_list cs k)) [1..8])"
proof -
  have digits: "\<forall>i<8. 0 \<le> int (count_list cs (int i + 1)) \<and> int (count_list cs (int i + 1)) < 6"
    using assms(2) by auto
  have total: "(\<Sum>c\<leftarrow>cs. EncodeVote c 6) = (\<Sum>i<8. int (count_list cs (int i + 1)) * 6 ^ i) + 6 ^ 8 * 0"
    using sum_EncodeVote [of cs 8 6] assms(1) by simp
  have "[0..<8] = [0, 1, 2, 3, 4, 5, 6, 7 :: nat]" and "[1..8] = [1, 2, 3, 4, 5, 6, 7, 8 :: int]"
    by code_simp+
  then have lists: "map (\<lambda>i. int (count_list cs (int i + 1))) [0..<8] = map (\<lambda>k. int (count_list cs k)) [1..8]"
    by simp
  have "DecodeCounts_loop 8 (\<Sum>c\<leftarrow>cs. EncodeVote c 6) 6 = Inr (map (\<lambda>i. int (count_list cs (int i + 1))) [0..<8])"
    unfolding total by (rule DecodeCounts_loop_digits) (use digits in auto)
  then show ?thesis
    by (simp add: DecodeCounts_def lists)
qed

theorem DecodeCounts_EncodeVote_inverse_witness:
  "DecodeCounts (\<Sum>c\<leftarrow>[1, 1, 3]. EncodeVote c 6) 8 6 = Inr [2, 0, 1, 0, 0, 0, 0, 0]"
proof -
  have votes: "\<forall>c\<in>set [1, 1, 3 :: int]. 1 \<le> c \<and> c \<le> 8"
    by simp
  have below: "\<forall>k\<in>{1..8}. count_list [1, 1, 3 :: int] k < 6"
    by simp
  have counts: "map (\<lambda>k. int (count_list [1, 1, 3] k)) [1..8] = [2, 0, 1, 0, 0, 0, 0, 0]"
    by code_simp
  show ?thesis
    using DecodeCounts_EncodeVote_inverse [OF votes below] unfolding counts .
qed

lemma TallyVotes_signed_range:
  "0 \<le> b \<Longrightarrow> b < bigS \<Longrightarrow>
     - bigS < 2 * TallyVotes_signed bigS (bigS div 2) b \<and>
     2 * TallyVotes_signed bigS (bigS div 2) b \<le> bigS"
  by (auto simp: TallyVotes_signed_def)

lemma TallyVotes_signed_even_half: "TallyVotes_signed (2 * h) (2 * h div 2) h = h"
  by (simp add: TallyVotes_signed_def)

lemma TallyVotes_range:
  "0 < L app \<Longrightarrow> TallyVotes app pp K Tmap votes = Inr t \<Longrightarrow> 0 \<le> t \<and> t < L app"
  by (auto simp: TallyVotes_def Let_def bindE_Inr_iff big_Mod_def)

text \<open>
  C7. The claim: in \<open>TallyVotes\<close> a recovered value \<open>b\<close> of \<open>[0, L)\<close> has \<open>L\<close>
  subtracted exactly when \<open>b > L/2\<close>, the signed value lies in \<open>[-L/2, L/2)\<close>, and the
  total is reduced into \<open>[0, L)\<close>. The run below has \<open>L = 6\<close> and the cipher text
  \<open>(3, 6)\<close>, which \<open>ADec\<close> decrypts to \<open>b = 3 = L/2\<close>: the test \<open>b > half\<close> fails, the
  value stays 3 and is not below \<open>L/2\<close>.
\<close>

theorem TallyVotes_signed_at_half:
  "ADec \<lparr>L = 6, S = 6, T = 6\<rparr> \<lparr>P = 7, Q = 6, G = 3\<rparr> zero_key
      [''1'' \<mapsto> 0, ''3'' \<mapsto> 1, ''2'' \<mapsto> 2, ''6'' \<mapsto> 3, ''4'' \<mapsto> 4, ''5'' \<mapsto> 5] 3 6 = Inr (Some 3) \<and>
   TallyVotes_signed 6 (6 div 2) 3 = 3 \<and>
   \<not> TallyVotes_signed 6 (6 div 2) 3 < 6 div 2 \<and>
   TallyVotes \<lparr>L = 6, S = 6, T = 6\<rparr> \<lparr>P = 7, Q = 6, G = 3\<rparr> zero_key
      [''1'' \<mapsto> 0, ''3'' \<mapsto> 1, ''2'' \<mapsto> 2, ''6'' \<mapsto> 3, ''4'' \<mapsto> 4, ''5'' \<mapsto> 5] [(3, 6)] = Inr 3"
  unfolding TallyVotes_def by (simp add: ADec_3_6 TallyVotes_signed_def big_Mod_def)

section \<open>The cancellation of the blinding terms\<close>

lemma length_deliver: "length shares = length users \<Longrightarrow> length (deliver shares users) = length users"
  by (simp add: deliver_def)

lemma nth_deliver:
  "length shares = length users \<Longrightarrow> j < length users \<Longrightarrow>
     deliver shares users ! j = (users ! j)\<lparr>Shares := Shares (users ! j) @ [shares ! j]\<rparr>"
  by (simp add: deliver_def)

lemma shares_deliver:
  "length shares = length users \<Longrightarrow>
     (\<Sum>u\<leftarrow>deliver shares users. sum_list (Shares u))
       = (\<Sum>u\<leftarrow>users. sum_list (Shares u)) + sum_list shares"
proof (induction users arbitrary: shares)
  case Nil
  then show ?case by (simp add: deliver_def)
next
  case (Cons u users)
  then obtain s rest where "shares = s # rest" "length rest = length users"
    by (cases shares) auto
  with Cons.IH [of rest] show ?case
    by (simp add: deliver_def)
qed

lemma shares_set_r:
  "s < length users \<Longrightarrow>
     (\<Sum>u\<leftarrow>users[s := (users ! s)\<lparr>user_r := v\<rparr>]. sum_list (Shares u))
       = (\<Sum>u\<leftarrow>users. sum_list (Shares u))"
proof -
  assume "s < length users"
  have "map (\<lambda>u. sum_list (Shares u)) (users[s := (users ! s)\<lparr>user_r := v\<rparr>])
          = (map (\<lambda>u. sum_list (Shares u)) users)[s := sum_list (Shares (users ! s))]"
    by (simp add: map_update)
  also have "\<dots> = map (\<lambda>u. sum_list (Shares u)) users"
    using \<open>s < length users\<close> by (simp add: list_update_same_conv)
  finally show ?thesis by simp
qed

lemma DistributeShares_loop_invariant:
  assumes "0 \<le> low" and "low < high" and "\<forall>i. rd i \<noteq> None"
  shows "distinct ss \<Longrightarrow> (\<forall>s\<in>set ss. s < length users) \<Longrightarrow>
     \<exists>users' pos'. DistributeShares_loop low high ss users rd pos = Inr (users', pos')
       \<and> length users' = length users
       \<and> (\<forall>j<length users. j \<notin> set ss \<longrightarrow> user_r (users' ! j) = user_r (users ! j))
       \<and> (\<forall>s\<in>set ss. user_r (users' ! s) \<noteq> None)
       \<and> (\<Sum>u\<leftarrow>users'. sum_list (Shares u))
           = (\<Sum>u\<leftarrow>users. sum_list (Shares u)) + (\<Sum>s\<leftarrow>ss. the (user_r (users' ! s)))"
proof (induction ss arbitrary: users pos)
  case Nil
  then show ?case by simp
next
  case (Cons s ss)
  let ?n = "length users"
  have s: "s < ?n" "s \<notin> set ss"
    using Cons.prems by auto
  from assms(3) obtain e where e: "rd pos = Some e"
    by auto
  define r_i where "r_i = int e mod (high - low) + low"
  have r_i: "0 \<le> r_i"
    using assms(1,2) by (simp add: r_i_def)
  define users1 where "users1 = users[s := (users ! s)\<lparr>user_r := Some r_i\<rparr>]"
  have draw: "rand_Int (high - low) rd pos = Inr (r_i - low, Suc pos)"
    using assms(2) e by (simp add: rand_Int_def r_i_def)
  from SplitSecret_shares [of "int ?n" r_i rd "Suc pos"] s(1) r_i assms(3)
  obtain shares where split:
    "SplitSecret r_i (int ?n) rd (Suc pos) = Inr (shares, Suc pos + nat (int ?n - 1))"
    "length shares = ?n" "sum_list shares = r_i"
    by auto
  define users2 where "users2 = deliver shares users1"
  have len2: "length users2 = ?n"
    by (simp add: users2_def users1_def length_deliver split(2))
  have r2: "user_r (users2 ! j) = user_r (users1 ! j)" if "j < ?n" for j
    using that by (simp add: users2_def nth_deliver split(2) users1_def)
  have sum2: "(\<Sum>u\<leftarrow>users2. sum_list (Shares u)) = (\<Sum>u\<leftarrow>users. sum_list (Shares u)) + r_i"
    using s(1) by (simp add: users2_def shares_deliver split(2,3) users1_def shares_set_r)
  from Cons.IH [of users2 "Suc pos + nat (int ?n - 1)"] Cons.prems len2
  obtain users' pos' where rest:
    "DistributeShares_loop low high ss users2 rd (Suc pos + nat (int ?n - 1)) = Inr (users', pos')"
    "length users' = ?n"
    "\<forall>j<?n. j \<notin> set ss \<longrightarrow> user_r (users' ! j) = user_r (users2 ! j)"
    "\<forall>s\<in>set ss. user_r (users' ! s) \<noteq> None"
    "(\<Sum>u\<leftarrow>users'. sum_list (Shares u))
       = (\<Sum>u\<leftarrow>users2. sum_list (Shares u)) + (\<Sum>s\<leftarrow>ss. the (user_r (users' ! s)))"
    by auto
  have run: "DistributeShares_loop low high (s # ss) users rd pos = Inr (users', pos')"
    using draw split(1) rest(1) by (simp add: users2_def users1_def)
  have own: "user_r (users' ! s) = Some r_i"
    using rest(3) s r2 [of s] by (simp add: users1_def)
  have others: "\<forall>j<?n. j \<notin> set (s # ss) \<longrightarrow> user_r (users' ! j) = user_r (users ! j)"
    using rest(3) r2 by (simp add: users1_def)
  show ?case
    using run rest(2,4,5) own others sum2 by simp
qed


text \<open>
  C2. \<open>DistributeShares\<close> gives every voter a personal randomness \<open>r_i\<close> of
  \<open>[low, high)\<close>, splits it with \<open>SplitSecret\<close> into as many shares as there are
  voters and hands one share of every split to each voter. Afterwards the blinded votes
  \<open>ComputeBlindVotes(candidate_i, r_i, base, shares received by i, L)\<close>, summed over
  the voters, are congruent modulo \<open>L\<close> to the sum of the \<open>EncodeVote(candidate_i, base)\<close>:
  the random terms cancel. The voters start without shares, \<open>0 \<le> low < high\<close>, \<open>L > 0\<close>
  and the reads of the entropy source succeed.
\<close>

theorem blinded_votes_cancel:
  assumes "0 \<le> low" and "low < high" and "\<forall>i. rd i \<noteq> None"
      and "\<forall>u\<in>set users. Shares u = []" and "length cs = length users" and "0 < L app"
  shows "\<exists>users' pos' bs. DistributeShares low high users rd pos = Inr (users', pos')
           \<and> length users' = length users \<and> length bs = length users
           \<and> (\<forall>j<length users. \<exists>r_j. user_r (users' ! j) = Some r_j
                 \<and> ComputeBlindVotes (cs ! j) r_j base (Shares (users' ! j)) pp app = Inr (bs ! j))
           \<and> sum_list bs mod L app = (\<Sum>c\<leftarrow>cs. EncodeVote c base) mod L app"
proof -
  let ?n = "length users"
  have no_shares: "(\<Sum>u\<leftarrow>users. sum_list (Shares u)) = 0"
    using assms(4) by (induction users) simp_all
  from DistributeShares_loop_invariant [OF assms(1-3), of "[0..<?n]" users pos]
  obtain users' pos' where run:
    "DistributeShares low high users rd pos = Inr (users', pos')"
    "length users' = ?n"
    "\<forall>s<?n. user_r (users' ! s) \<noteq> None"
    "(\<Sum>u\<leftarrow>users'. sum_list (Shares u)) = (\<Sum>s\<leftarrow>[0..<?n]. the (user_r (users' ! s)))"
    by (auto simp: DistributeShares_def no_shares)
  define rs where "rs j = the (user_r (users' ! j))" for j
  define sh where "sh j = sum_list (Shares (users' ! j))" for j
  define x where "x j = EncodeVote (cs ! j) base + rs j - sh j" for j
  define bs where "bs = map (\<lambda>j. x j mod L app) [0..<?n]"
  have shares: "(\<Sum>j = 0..<?n. sh j) = (\<Sum>j = 0..<?n. rs j)"
  proof -
    have "(\<Sum>j = 0..<?n. sh j) = (\<Sum>u\<leftarrow>users'. sum_list (Shares u))"
      using run(2) by (simp add: sum_list_sum_nth sh_def)
    also have "\<dots> = (\<Sum>j = 0..<?n. rs j)"
      by (simp add: run(4) interv_sum_list_conv_sum_set_nat rs_def)
    finally show ?thesis .
  qed
  have votes: "(\<Sum>j = 0..<?n. EncodeVote (cs ! j) base) = (\<Sum>c\<leftarrow>cs. EncodeVote c base)"
    using assms(5) by (simp add: sum_list_sum_nth)
  have "(\<Sum>j = 0..<?n. x j) = (\<Sum>c\<leftarrow>cs. EncodeVote c base)"
    by (simp add: x_def sum.distrib sum_subtractf shares votes)
  moreover have "sum_list bs mod L app = (\<Sum>j = 0..<?n. x j) mod L app"
    by (simp add: bs_def interv_sum_list_conv_sum_set_nat mod_sum_eq)
  ultimately have total: "sum_list bs mod L app = (\<Sum>c\<leftarrow>cs. EncodeVote c base) mod L app"
    by simp
  have each: "\<exists>r_j. user_r (users' ! j) = Some r_j
      \<and> ComputeBlindVotes (cs ! j) r_j base (Shares (users' ! j)) pp app = Inr (bs ! j)"
    if "j < ?n" for j
  proof -
    from run(3) that have "user_r (users' ! j) = Some (rs j)"
      by (auto simp: rs_def)
    moreover have "ComputeBlindVotes (cs ! j) (rs j) base (Shares (users' ! j)) pp app = Inr (bs ! j)"
      using that assms(6)
      by (simp add: ComputeBlindVotes_def foldl_add_sum_list big_Mod_def bs_def x_def sh_def)
    ultimately show ?thesis by blast
  qed
  have "length bs = ?n"
    by (simp add: bs_def)
  with run(1,2) each total show ?thesis
    by blast
qed

theorem blinded_votes_cancel_witness:
  "\<exists>users' pos'.
     DistributeShares 5 10
       [\<lparr>userID = ''user1'', ask = 2, apk = Some 2, userK = [], userTmap = Map.empty, user_r = None, Shares = []\<rparr>,
        \<lparr>userID = ''user2'', ask = 3, apk = Some 6, userK = [], userTmap = Map.empty, user_r = None, Shares = []\<rparr>,
        \<lparr>userID = ''user3'', ask = 4, apk = Some 4, userK = [], userTmap = Map.empty, user_r = None, Shares = []\<rparr>]
       (\<lambda>i. Some (7 * i + 4)) 0 = Inr (users', pos')
     \<and> map user_r users' = [Some 9, Some 5, Some 6]
     \<and> map Shares users' = [[1, 2, 4], [0, 3, 0], [8, 0, 2]]
     \<and> ComputeBlindVotes 1 9 6 [1, 2, 4] \<lparr>P = 7, Q = 6, G = 3\<rparr> \<lparr>L = 7, S = 7, T = 7\<rparr> = Inr 3
     \<and> ComputeBlindVotes 1 5 6 [0, 3, 0] \<lparr>P = 7, Q = 6, G = 3\<rparr> \<lparr>L = 7, S = 7, T = 7\<rparr> = Inr 3
     \<and> ComputeBlindVotes 3 6 6 [8, 0, 2] \<lparr>P = 7, Q = 6, G = 3\<rparr> \<lparr>L = 7, S = 7, T = 7\<rparr> = Inr 4
     \<and> sum_list [3, 3, 4] mod 7 = (\<Sum>c\<leftarrow>[1, 1, 3]. EncodeVote c 6) mod (7 :: int)"
  using blinded_votes_cancel [of 5 10 "\<lambda>i. Some (7 * i + 4)"
      "[\<lparr>userID = ''user1'', ask = 2, apk = Some 2, userK = [], userTmap = Map.empty, user_r = None, Shares = []\<rparr>,
        \<lparr>userID = ''user2'', ask = 3, apk = Some 6, userK = [], userTmap = Map.empty, user_r = None, Shares = []\<rparr>,
        \<lparr>userID = ''user3'', ask = 4, apk = Some 4, userK = [], userTmap = Map.empty, user_r = None, Shares = []\<rparr>]"
      "[1, 1, 3]" "\<lparr>L = 7, S = 7, T = 7\<rparr>" 0 6 "\<lparr>P = 7, Q = 6, G = 3\<rparr>"]
  by (simp add: DistributeShares_def upt_rec_numeral rand_Int_def SplitSecret_def deliver_def
      ComputeBlindVotes_def EncodeVote_def big_Mod_def eval_nat_numeral)

end
